theory Spec2Isabelle
  imports Complex_Main "HOL-Library.AList" "HOL-Library.Multiset" "HOL-Library.Sublist"
begin

section \<open>Integers, errors and the environment\<close>

text \<open>
  The simulator computes with C++ \<^verbatim>\<open>int\<close>. Its \<^verbatim>\<open>/\<close> and \<^verbatim>\<open>%\<close> truncate towards zero,
  which is not what \<open>div\<close> and \<open>mod\<close> do on negative numbers in HOL, so both operators are
  written out. Values are unbounded integers here: no property below depends on the
  wrap-around of a 32-bit \<^verbatim>\<open>int\<close>.
\<close>

definition cdiv :: "int \<Rightarrow> int \<Rightarrow> int" where
  "cdiv a b = sgn a * sgn b * (\<bar>a\<bar> div \<bar>b\<bar>)"

definition cmod :: "int \<Rightarrow> int \<Rightarrow> int" where
  "cmod a b = sgn a * (\<bar>a\<bar> mod \<bar>b\<bar>)"

text \<open>
  What is undefined behaviour or an exception in the C++ is an error value of the model:
  an integer division by zero, a \<^verbatim>\<open>vector\<close> or \<^verbatim>\<open>deque\<close> read outside its bounds, the
  \<^verbatim>\<open>std::length_error\<close> of \<^verbatim>\<open>vector::resize\<close> on a negative count, and, in the loops of the
  address generators, the overflow of the loop variable and a vector that grows without end.
\<close>

datatype error = DivisionByZero | OutOfRange | LengthError | IntegerOverflow | OutOfMemory

text \<open>
  A probe reads the outside world in three ways: \<^verbatim>\<open>std::time(nullptr)\<close> (seconds of wall-clock
  time), \<^verbatim>\<open>std::shuffle\<close> with an engine seeded from the clock, and \<^verbatim>\<open>std::rand()\<close>. The model
  takes these readings as an input of the probe. \<open>time1\<close> and \<open>time2\<close> are the values of the
  first and the second call of \<^verbatim>\<open>std::time\<close> that the LRU code makes in one probe, as the
  code stores them in an \<^verbatim>\<open>int\<close> (after the narrowing of \<^verbatim>\<open>time_t\<close>); \<open>swaps\<close> is
  the sequence of exchanges that \<^verbatim>\<open>std::shuffle\<close> applies to \<^verbatim>\<open>randomIndices\<close> (every
  permutation is such a sequence, and every such sequence is a permutation); \<open>rnd\<close> is
  the value of \<^verbatim>\<open>std::rand()\<close>.
\<close>

record env =
  time1 :: int
  time2 :: int
  swaps :: "(nat \<times> nat) list"
  rnd :: int

definition shuffle :: "(nat \<times> nat) list \<Rightarrow> 'a list \<Rightarrow> 'a list" where
  "shuffle sw xs =
     fold (\<lambda>(i, j) ys. if i < length ys \<and> j < length ys then ys[i := ys ! j, j := ys ! i] else ys)
       sw xs"

section \<open>Storage levels: class Cache and class TLB\<close>

datatype ReplacementPolicy = FIFO | LRU | RANDOM

record CacheBlock =
  tag :: int
  valid :: bool

text \<open>The constructor \<^verbatim>\<open>CacheBlock() : tag(-1), valid(false)\<close>.\<close>

definition emptyBlock :: CacheBlock where
  "emptyBlock = \<lparr>tag = - 1, valid = False\<rparr>"

text \<open>
  Class \<^verbatim>\<open>TLB\<close> and class \<^verbatim>\<open>Cache\<close> have the same members, except that \<^verbatim>\<open>Cache\<close> has
  \<^verbatim>\<open>blockSize\<close> in addition, and their \<^verbatim>\<open>replace\<close> methods are the same text up to the name of
  the parameter (\<^verbatim>\<open>page\<close> for \<^verbatim>\<open>tag\<close>). The record of \<^verbatim>\<open>Cache\<close> extends the record of \<^verbatim>\<open>TLB\<close>, and
  one definition of \<open>replace\<close> over the common fields stands for both methods.
  \<^verbatim>\<open>fifoQueue\<close> is a \<^verbatim>\<open>deque\<close> (front first), \<^verbatim>\<open>lruMap\<close> an \<^verbatim>\<open>unordered_map\<close> from tag to time
  stamp, kept as an association list with distinct keys.
\<close>

record TLB =
  size_c :: int
  numBlocks :: int
  accessTime :: int
  policy :: ReplacementPolicy
  blocks :: "CacheBlock list"
  fifoQueue :: "int list"
  lruMap :: "(int \<times> int) list"
  randomIndices :: "int list"

record Cache = TLB +
  blockSize :: int

text \<open>\<^verbatim>\<open>v[i]\<close> and \<^verbatim>\<open>v[i] = ...; v[i].valid = true\<close> on the vector of blocks.\<close>

definition blockAt :: "CacheBlock list \<Rightarrow> int \<Rightarrow> error + CacheBlock" where
  "blockAt bs i = (if 0 \<le> i \<and> i < int (length bs) then Inr (bs ! nat i) else Inl OutOfRange)"

definition setBlock :: "CacheBlock list \<Rightarrow> int \<Rightarrow> int \<Rightarrow> error + CacheBlock list" where
  "setBlock bs i t =
     (if 0 \<le> i \<and> i < int (length bs) then Inr (bs[nat i := \<lparr>tag = t, valid = True\<rparr>])
      else Inl OutOfRange)"

text \<open>
  The scan of \<^verbatim>\<open>lruMap\<close> in the LRU case: it starts from the current time and the tag \<^verbatim>\<open>-1\<close>
  and keeps an entry only when its stamp is strictly older than the oldest one so far.
  The order in which an \<^verbatim>\<open>unordered_map\<close> is traversed is not specified by the language
  (the library of GCC usually visits the entry inserted last first); the model traverses
  the association list from its head, the entry inserted first. The order matters only
  when several entries share the oldest stamp below the current time. No input used below
  has such a tie, and the general statements below hold for whatever tag the scan returns.
\<close>

definition lruOldest :: "(int \<times> int) list \<Rightarrow> int \<Rightarrow> int \<times> int" where
  "lruOldest m now =
     fold (\<lambda>(k, v) (oldestTime, lruTag). if v < oldestTime then (v, k) else (oldestTime, lruTag))
       m (now, - 1)"

text \<open>The loop \<^verbatim>\<open>for (i = 0; i < numBlocks; ++i) if (blocks[i].tag == lruTag)\<close>: the first such \<open>i\<close>.\<close>

fun findTag :: "CacheBlock list \<Rightarrow> int \<Rightarrow> nat \<Rightarrow> nat option" where
  "findTag [] t i = None"
| "findTag (b # bs) t i = (if tag b = t then Some i else findTag bs t (Suc i))"

text \<open>
  The loop \<^verbatim>\<open>for (i = 0; i < numBlocks; ++i) if (!blocks[randomIndices[i]].valid)\<close> over the
  shuffled indices: the first index of a block that is not valid.
\<close>

fun firstFree :: "CacheBlock list \<Rightarrow> int list \<Rightarrow> error + int option" where
  "firstFree bs [] = Inr None"
| "firstFree bs (r # rs) =
     (case blockAt bs r of
        Inl err \<Rightarrow> Inl err
      | Inr b \<Rightarrow> if \<not> valid b then Inr (Some r) else firstFree bs rs)"

definition replace :: "'a TLB_scheme \<Rightarrow> int \<Rightarrow> int \<Rightarrow> env \<Rightarrow> error + 'a TLB_scheme" where
  "replace c index tg e =
     (case policy c of
        FIFO \<Rightarrow>
          if int (length (fifoQueue c)) = numBlocks c then
            (case fifoQueue c of
               [] \<Rightarrow> Inl OutOfRange
             | oldIndex # q \<Rightarrow>
                 (case setBlock (blocks c) oldIndex tg of
                    Inl err \<Rightarrow> Inl err
                  | Inr bs \<Rightarrow> Inr (c\<lparr>blocks := bs, fifoQueue := q @ [index]\<rparr>)))
          else
            (case setBlock (blocks c) index tg of
               Inl err \<Rightarrow> Inl err
             | Inr bs \<Rightarrow> Inr (c\<lparr>blocks := bs, fifoQueue := fifoQueue c @ [index]\<rparr>))
      | LRU \<Rightarrow>
          if int (length (lruMap c)) = numBlocks c then
            (let lruTag = snd (lruOldest (lruMap c) (time1 e));
                 m = AList.delete lruTag (lruMap c)
             in case findTag (take (nat (numBlocks c)) (blocks c)) lruTag 0 of
                  None \<Rightarrow> Inr (c\<lparr>lruMap := m\<rparr>)
                | Some i \<Rightarrow>
                    Inr (c\<lparr>blocks := (blocks c)[i := \<lparr>tag = tg, valid = True\<rparr>],
                            lruMap := AList.update tg (time2 e) m\<rparr>))
          else
            (case setBlock (blocks c) index tg of
               Inl err \<Rightarrow> Inl err
             | Inr bs \<Rightarrow> Inr (c\<lparr>blocks := bs, lruMap := AList.update tg (time1 e) (lruMap c)\<rparr>))
      | RANDOM \<Rightarrow>
          (let ri = shuffle (swaps e) (randomIndices c)
           in case firstFree (blocks c) (take (nat (numBlocks c)) ri) of
                Inl err \<Rightarrow> Inl err
              | Inr (Some r) \<Rightarrow>
                  (case setBlock (blocks c) r tg of
                     Inl err \<Rightarrow> Inl err
                   | Inr bs \<Rightarrow> Inr (c\<lparr>blocks := bs, randomIndices := ri\<rparr>))
              | Inr None \<Rightarrow>
                  if numBlocks c = 0 then Inl DivisionByZero
                  else
                    (case setBlock (blocks c) (cmod (rnd e) (numBlocks c)) tg of
                       Inl err \<Rightarrow> Inl err
                     | Inr bs \<Rightarrow> Inr (c\<lparr>blocks := bs, randomIndices := ri\<rparr>))))"

text \<open>
  The constructors. \<^verbatim>\<open>numBlocks(s / bs)\<close> divides the two parameters; \<^verbatim>\<open>blocks.resize\<close> of a
  negative count throws. Neither constructor checks its arguments in any other way.
\<close>

definition Cache :: "int \<Rightarrow> int \<Rightarrow> int \<Rightarrow> ReplacementPolicy \<Rightarrow> error + Cache" where
  "Cache s bs atm rp =
     (if bs = 0 then Inl DivisionByZero
      else if cdiv s bs < 0 then Inl LengthError
      else Inr \<lparr>size_c = s, numBlocks = cdiv s bs, accessTime = atm, policy = rp,
                blocks = replicate (nat (cdiv s bs)) emptyBlock, fifoQueue = [], lruMap = [],
                randomIndices = (if rp = RANDOM then map int [0..<nat (cdiv s bs)] else []),
                blockSize = bs\<rparr>)"

definition TLB :: "int \<Rightarrow> int \<Rightarrow> ReplacementPolicy \<Rightarrow> error + TLB" where
  "TLB s atm rp =
     (if s < 0 then Inl LengthError
      else Inr \<lparr>size_c = s, numBlocks = s, accessTime = atm, policy = rp,
                blocks = replicate (nat s) emptyBlock, fifoQueue = [], lruMap = [],
                randomIndices = (if rp = RANDOM then map int [0..<nat s] else [])\<rparr>)"

text \<open>\<^verbatim>\<open>Cache::getIndex\<close> and \<^verbatim>\<open>TLB::getIndex\<close>.\<close>

definition getIndex :: "Cache \<Rightarrow> int \<Rightarrow> error + int" where
  "getIndex c address =
     (if blockSize c = 0 \<or> numBlocks c = 0 then Inl DivisionByZero
      else Inr (cmod (cdiv address (blockSize c)) (numBlocks c)))"

definition tlb_getIndex :: "TLB \<Rightarrow> int \<Rightarrow> error + int" where
  "tlb_getIndex t page =
     (if numBlocks t = 0 then Inl DivisionByZero else Inr (cmod page (numBlocks t)))"

text \<open>
  \<^verbatim>\<open>Cache::access\<close> returns the access time on a hit and \<^verbatim>\<open>-1\<close> on a miss; the model returns
  the new state of the cache with it.
\<close>

definition access :: "Cache \<Rightarrow> int \<Rightarrow> env \<Rightarrow> error + (Cache \<times> int)" where
  "access c address e =
     (case getIndex c address of
        Inl err \<Rightarrow> Inl err
      | Inr index \<Rightarrow>
          (let tg = cdiv address (blockSize c)
           in case blockAt (blocks c) index of
                Inl err \<Rightarrow> Inl err
              | Inr b \<Rightarrow>
                  if valid b \<and> tag b = tg then
                    Inr (if policy c = LRU
                         then c\<lparr>lruMap := AList.update tg (time1 e) (lruMap c)\<rparr> else c,
                         accessTime c)
                  else
                    (case replace c index tg e of
                       Inl err \<Rightarrow> Inl err
                     | Inr c' \<Rightarrow> Inr (c', - 1))))"

definition tlb_access :: "TLB \<Rightarrow> int \<Rightarrow> env \<Rightarrow> error + (TLB \<times> int)" where
  "tlb_access t page e =
     (case tlb_getIndex t page of
        Inl err \<Rightarrow> Inl err
      | Inr index \<Rightarrow>
          (case blockAt (blocks t) index of
             Inl err \<Rightarrow> Inl err
           | Inr b \<Rightarrow>
               if valid b \<and> tag b = page then
                 Inr (if policy t = LRU
                      then t\<lparr>lruMap := AList.update page (time1 e) (lruMap t)\<rparr> else t,
                      accessTime t)
               else
                 (case replace t index page e of
                    Inl err \<Rightarrow> Inl err
                  | Inr t' \<Rightarrow> Inr (t', - 1))))"

text \<open>
  A run of probes on one cache, each with its readings of the environment: the outcome of
  every probe (\<open>True\<close> for a hit, that is a result other than \<^verbatim>\<open>-1\<close>, as the callers test it)
  and the final state.
\<close>

fun probes :: "Cache \<Rightarrow> (int \<times> env) list \<Rightarrow> error + (Cache \<times> bool list)" where
  "probes c [] = Inr (c, [])"
| "probes c ((a, e) # rest) =
     (case access c a e of
        Inl err \<Rightarrow> Inl err
      | Inr (c', t) \<Rightarrow>
          (case probes c' rest of
             Inl err \<Rightarrow> Inl err
           | Inr (c'', hs) \<Rightarrow> Inr (c'', (t \<noteq> - 1) # hs)))"

text \<open>The tags that are resident: the tags of the valid blocks.\<close>

definition residentTags :: "'a TLB_scheme \<Rightarrow> int list" where
  "residentTags c = map tag (filter valid (blocks c))"

section \<open>The address generators\<close>

text \<open>
  The loop \<^verbatim>\<open>for (addr = startAddress; addr <= endAddress; addr += step)\<close>. After the last
  address is stored, \<^verbatim>\<open>addr += step\<close> is still computed: when the sum is above \<^verbatim>\<open>INT_MAX\<close> the
  addition overflows and the call does not return a list. With a step that is not positive
  the loop does not end either: the vector grows until the memory is exhausted (step 0) or
  \<^verbatim>\<open>addr\<close> underflows. The simulator calls the function with the step 10 only.
\<close>

function generateSequentialAccess :: "int \<Rightarrow> int \<Rightarrow> int \<Rightarrow> error + int list" where
  "generateSequentialAccess startAddress endAddress step =
     (if startAddress \<le> endAddress then
        (if step = 0 then Inl OutOfMemory
         else if step < 0 \<or> 2147483647 < startAddress + step then Inl IntegerOverflow
         else
           (case generateSequentialAccess (startAddress + step) endAddress step of
              Inl err \<Rightarrow> Inl err
            | Inr rest \<Rightarrow> Inr (startAddress # rest)))
      else Inr [])"
  by pat_completeness auto
termination
  by (relation "measure (\<lambda>(s, e, st). nat (e + 1 - s))") auto

text \<open>
  The loops \<^verbatim>\<open>for (loop = 0; loop < loopCount; ++loop)\<close> and
  \<^verbatim>\<open>for (addr = startAddress; addr <= endAddress; ++addr)\<close>; the last \<^verbatim>\<open>++addr\<close> overflows
  when \<^verbatim>\<open>endAddress\<close> is \<^verbatim>\<open>INT_MAX\<close>.
\<close>

definition generateLoopAccess :: "int \<Rightarrow> int \<Rightarrow> int \<Rightarrow> error + int list" where
  "generateLoopAccess startAddress endAddress loopCount =
     (if 0 < loopCount \<and> startAddress \<le> endAddress \<and> 2147483647 \<le> endAddress
      then Inl IntegerOverflow
      else Inr (concat (replicate (nat loopCount) [startAddress..endAddress])))"

text \<open>\<open>rands\<close> are the values of the successive calls of \<^verbatim>\<open>std::rand()\<close>.\<close>

definition generateRandomAccess :: "int \<Rightarrow> int \<Rightarrow> nat \<Rightarrow> (nat \<Rightarrow> int) \<Rightarrow> error + int list" where
  "generateRandomAccess rangeStart rangeEnd cnt rands =
     (if 0 < cnt \<and> rangeEnd - rangeStart + 1 = 0 then Inl DivisionByZero
      else Inr (map (\<lambda>i. rangeStart + cmod (rands i) (rangeEnd - rangeStart + 1)) [0..<cnt]))"

definition generateAddresses :: "int \<Rightarrow> int \<Rightarrow> int \<Rightarrow> (nat \<Rightarrow> int) \<Rightarrow> error + int list" where
  "generateAddresses patternChoice startAddress endAddress rands =
     (if patternChoice = 1 then generateSequentialAccess startAddress endAddress 10
      else if patternChoice = 2 then generateRandomAccess startAddress endAddress 20 rands
      else if patternChoice = 3 then generateLoopAccess startAddress endAddress 5
      else generateSequentialAccess startAddress endAddress 10)"

section \<open>class PerformanceAnalyzer\<close>

record PerformanceAnalyzer =
  totalAccesses :: int
  hits :: int
  misses :: int
  cacheHits :: "int list"
  cacheMisses :: "int list"

text \<open>The only call of the constructor passes \<^verbatim>\<open>cacheSizes.size() + 1\<close>, a natural number.\<close>

definition PerformanceAnalyzer :: "nat \<Rightarrow> PerformanceAnalyzer" where
  "PerformanceAnalyzer numCaches =
     \<lparr>totalAccesses = 0, hits = 0, misses = 0,
      cacheHits = replicate numCaches 0, cacheMisses = replicate numCaches 0\<rparr>"

text \<open>\<^verbatim>\<open>for (i = from; i < v.size(); i++) v[i]++\<close>.\<close>

definition incrementFrom :: "nat \<Rightarrow> int list \<Rightarrow> int list" where
  "incrementFrom from v = fold (\<lambda>i xs. xs[i := xs ! i + 1]) [from..<length v] v"

definition logAccess :: "bool \<Rightarrow> nat \<Rightarrow> PerformanceAnalyzer \<Rightarrow> PerformanceAnalyzer" where
  "logAccess hit cacheLevel an =
     (if hit then
        (if cacheLevel < length (cacheHits an) then
           an\<lparr>totalAccesses := totalAccesses an + 1, hits := hits an + 1,
              cacheHits :=
                incrementFrom (cacheLevel + 1)
                  ((cacheHits an)[cacheLevel := cacheHits an ! cacheLevel + 1])\<rparr>
         else an\<lparr>totalAccesses := totalAccesses an + 1, hits := hits an + 1\<rparr>)
      else
        (if cacheLevel < length (cacheMisses an) then
           an\<lparr>totalAccesses := totalAccesses an + 1, misses := misses an + 1,
              cacheMisses := (cacheMisses an)[cacheLevel := cacheMisses an ! cacheLevel + 1]\<rparr>
         else an\<lparr>totalAccesses := totalAccesses an + 1, misses := misses an + 1\<rparr>))"

text \<open>
  \<^verbatim>\<open>report\<close> prints rates computed in \<^verbatim>\<open>double\<close>. The model keeps what matters for a rate: a
  finite value (as a real number, the rounding of the machine left out) or one of the
  special values of IEEE arithmetic, which a division by zero produces instead of a trap.
\<close>

datatype double = Finite real | PosInf | NegInf | NaN

text \<open>\<^verbatim>\<open>static_cast<double>(a) / b\<close> for integers \<open>a\<close> and \<open>b\<close>.\<close>

definition ddiv :: "int \<Rightarrow> int \<Rightarrow> double" where
  "ddiv a b =
     (if b = 0 then (if a = 0 then NaN else if 0 < a then PosInf else NegInf)
      else Finite (real_of_int a / real_of_int b))"

text \<open>\<^verbatim>\<open>x * 100\<close> and \<^verbatim>\<open>1 - x\<close>.\<close>

fun times100 :: "double \<Rightarrow> double" where
  "times100 (Finite x) = Finite (x * 100)"
| "times100 d = d"

fun oneMinus :: "double \<Rightarrow> double" where
  "oneMinus (Finite x) = Finite (1 - x)"
| "oneMinus PosInf = NegInf"
| "oneMinus NegInf = PosInf"
| "oneMinus NaN = NaN"

text \<open>
  What \<^verbatim>\<open>report\<close> prints: the three totals, the two overall rates and, for \<open>i = 0, 1, 2\<close>, the
  hit rate and the miss rate of the line \<^verbatim>\<open>L(i+1)\<close>, both computed from \<^verbatim>\<open>cacheHits[i]\<close>.
\<close>

record Summary =
  shownAccesses :: int
  shownHits :: int
  shownMisses :: int
  overallHitRate :: double
  overallMissRate :: double
  levelRates :: "(double \<times> double) list"

fun reportLevels :: "PerformanceAnalyzer \<Rightarrow> nat list \<Rightarrow> error + (double \<times> double) list" where
  "reportLevels an [] = Inr []"
| "reportLevels an (i # rest) =
     (if i < length (cacheHits an) then
        (case reportLevels an rest of
           Inl err \<Rightarrow> Inl err
         | Inr rs \<Rightarrow>
             Inr ((times100 (ddiv (cacheHits an ! i) (totalAccesses an)),
                   times100 (oneMinus (ddiv (cacheHits an ! i) (totalAccesses an)))) # rs))
      else Inl OutOfRange)"

definition report :: "PerformanceAnalyzer \<Rightarrow> error + Summary" where
  "report an =
     (case reportLevels an [0..<3] of
        Inl err \<Rightarrow> Inl err
      | Inr rs \<Rightarrow>
          Inr \<lparr>shownAccesses = totalAccesses an, shownHits = hits an, shownMisses = misses an,
               overallHitRate = times100 (ddiv (hits an) (totalAccesses an)),
               overallMissRate = times100 (ddiv (misses an) (totalAccesses an)),
               levelRates = rs\<rparr>)"

section \<open>class MemoryHierarchy\<close>

record MemoryHierarchy =
  caches :: "Cache list"
  tlb :: TLB
  ram :: Cache
  diskAccessTime :: int
  analyzer :: PerformanceAnalyzer

text \<open>The loop of the constructor that builds \<^verbatim>\<open>caches\<close> from the four vectors, by index.\<close>

fun buildCaches ::
  "int list \<Rightarrow> int list \<Rightarrow> int list \<Rightarrow> ReplacementPolicy list \<Rightarrow> nat list \<Rightarrow> error + Cache list"
where
  "buildCaches cacheSizes blockSizes accessTimes policies [] = Inr []"
| "buildCaches cacheSizes blockSizes accessTimes policies (i # rest) =
     (if i < length blockSizes \<and> i < length accessTimes \<and> i < length policies then
        (case Cache (cacheSizes ! i) (blockSizes ! i) (accessTimes ! i) (policies ! i) of
           Inl err \<Rightarrow> Inl err
         | Inr c \<Rightarrow>
             (case buildCaches cacheSizes blockSizes accessTimes policies rest of
                Inl err \<Rightarrow> Inl err
              | Inr cs \<Rightarrow> Inr (c # cs)))
      else Inl OutOfRange)"

definition MemoryHierarchy ::
  "int list \<Rightarrow> int list \<Rightarrow> int list \<Rightarrow> ReplacementPolicy list \<Rightarrow>
   int \<Rightarrow> int \<Rightarrow> int \<Rightarrow> ReplacementPolicy \<Rightarrow> int \<Rightarrow> int \<Rightarrow> int \<Rightarrow> int \<Rightarrow> ReplacementPolicy \<Rightarrow>
   error + MemoryHierarchy"
where
  "MemoryHierarchy cacheSizes blockSizes accessTimes policies
       ramSize ramBlockSize ramAt ramPolicy diskSize diskAt tlbSize tlbAt tlbPolicy =
     (case Cache ramSize ramBlockSize ramAt ramPolicy of
        Inl err \<Rightarrow> Inl err
      | Inr r \<Rightarrow>
          (case buildCaches cacheSizes blockSizes accessTimes policies [0..<length cacheSizes] of
             Inl err \<Rightarrow> Inl err
           | Inr cs \<Rightarrow>
               (case TLB tlbSize tlbAt tlbPolicy of
                  Inl err \<Rightarrow> Inl err
                | Inr t \<Rightarrow>
                    Inr \<lparr>caches = cs, tlb = t, ram = r, diskAccessTime = diskAt,
                         analyzer = PerformanceAnalyzer (length cacheSizes + 1)\<rparr>)))"

text \<open>
  The levels that \<^verbatim>\<open>simulateAccess\<close> names in its messages: the TLB, the cache \<^verbatim>\<open>caches[i]\<close>
  (printed as \<^verbatim>\<open>L(i+1)\<close>), the RAM and the disk. An outcome is a level with the two
  arguments that \<^verbatim>\<open>logAccess\<close> receives for it, the flag \<^verbatim>\<open>hit\<close> and the index \<^verbatim>\<open>cacheLevel\<close>
  of the counters; the trace of an access is the sequence of its outcomes, in the order of
  the calls of \<^verbatim>\<open>logAccess\<close>.
\<close>

datatype Level = TLBLevel | CacheLevel nat | RAM | DISK

type_synonym trace = "(Level \<times> bool \<times> nat) list"

text \<open>One call \<^verbatim>\<open>analyzer.logAccess(hit, cacheLevel)\<close>, with the level it is made for.\<close>

definition logOutcome ::
  "Level \<Rightarrow> bool \<Rightarrow> nat \<Rightarrow> PerformanceAnalyzer \<times> trace \<Rightarrow> PerformanceAnalyzer \<times> trace" where
  "logOutcome lv hit cacheLevel st =
     (logAccess hit cacheLevel (fst st), snd st @ [(lv, hit, cacheLevel)])"

text \<open>The readings of the environment for the probes of one address.\<close>

record walkEnv =
  tlbEnv :: env
  translationEnv :: env
  cacheEnv :: "nat \<Rightarrow> env"
  ramEnv :: env

text \<open>
  The loop over \<^verbatim>\<open>caches\<close>; the flag of the result says that a cache hit, where the C++
  returns from \<^verbatim>\<open>simulateAccess\<close>.
\<close>

fun accessCaches ::
  "Cache list \<Rightarrow> nat \<Rightarrow> int \<Rightarrow> (nat \<Rightarrow> env) \<Rightarrow> PerformanceAnalyzer \<times> trace \<Rightarrow>
   error + (Cache list \<times> (PerformanceAnalyzer \<times> trace) \<times> bool)"
where
  "accessCaches [] i address ce st = Inr ([], st, False)"
| "accessCaches (c # cs) i address ce st =
     (case access c address (ce i) of
        Inl err \<Rightarrow> Inl err
      | Inr (c', time) \<Rightarrow>
          if time \<noteq> - 1 then Inr (c' # cs, logOutcome (CacheLevel i) True (i + 1) st, True)
          else
            (case accessCaches cs (Suc i) address ce (logOutcome (CacheLevel i) False (i + 1) st) of
               Inl err \<Rightarrow> Inl err
             | Inr (cs', st', found) \<Rightarrow> Inr (c' # cs', st', found)))"

text \<open>
  \<^verbatim>\<open>simulateAccess\<close> contains three copies of the same text: the loop over the caches, then
  the probe of the RAM, then the disk (a miss and a hit are logged for it). The copies differ
  only in the order of two statements without effect on each other. \<open>cachesRamDisk\<close> is that
  text.
\<close>

definition cachesRamDisk ::
  "MemoryHierarchy \<Rightarrow> int \<Rightarrow> walkEnv \<Rightarrow> PerformanceAnalyzer \<times> trace \<Rightarrow>
   error + (MemoryHierarchy \<times> trace)"
where
  "cachesRamDisk h address w st =
     (let n = length (caches h)
      in case accessCaches (caches h) 0 address (cacheEnv w) st of
           Inl err \<Rightarrow> Inl err
         | Inr (cs, st1, found) \<Rightarrow>
             if found then Inr (h\<lparr>caches := cs, analyzer := fst st1\<rparr>, snd st1)
             else
               (case access (ram h) address (ramEnv w) of
                  Inl err \<Rightarrow> Inl err
                | Inr (r, time) \<Rightarrow>
                    if time \<noteq> - 1 then
                      (let st2 = logOutcome RAM True n st1
                       in Inr (h\<lparr>caches := cs, ram := r, analyzer := fst st2\<rparr>, snd st2))
                    else
                      (let st2 = logOutcome DISK True (n + 1)
                                   (logOutcome DISK False (n + 1) (logOutcome RAM False n st1))
                       in Inr (h\<lparr>caches := cs, ram := r, analyzer := fst st2\<rparr>, snd st2))))"

definition simulateAccess ::
  "MemoryHierarchy \<Rightarrow> int \<Rightarrow> walkEnv \<Rightarrow> error + (MemoryHierarchy \<times> trace)" where
  "simulateAccess h address w =
     (let n = length (caches h)
      in if size_c (tlb h) = 0 then Inl DivisionByZero
         else
           (case tlb_access (tlb h) (cdiv address (size_c (tlb h))) (tlbEnv w) of
              Inl err \<Rightarrow> Inl err
            | Inr (t, time) \<Rightarrow>
                if time \<noteq> - 1 then
                  cachesRamDisk (h\<lparr>tlb := t\<rparr>) address w
                    (logOutcome TLBLevel True 0 (analyzer h, []))
                else
                  (case access (ram h) address (translationEnv w) of
                     Inl err \<Rightarrow> Inl err
                   | Inr (r, time') \<Rightarrow>
                       if time' \<noteq> - 1 then
                         cachesRamDisk (h\<lparr>tlb := t, ram := r\<rparr>) address w
                           (logOutcome RAM True n (logOutcome TLBLevel False 0 (analyzer h, [])))
                       else
                         cachesRamDisk (h\<lparr>tlb := t, ram := r\<rparr>) address w
                           (logOutcome DISK False (n + 1)
                              (logOutcome RAM False n
                                 (logOutcome TLBLevel False 0 (analyzer h, [])))))))"

text \<open>
  \<^verbatim>\<open>runSimulation\<close>: every address of the stream in turn, then the report. \<open>ws k\<close> are the
  readings of the environment for the \<open>k\<close>-th address.
\<close>

fun simulateAll ::
  "MemoryHierarchy \<Rightarrow> int list \<Rightarrow> nat \<Rightarrow> (nat \<Rightarrow> walkEnv) \<Rightarrow> error + MemoryHierarchy" where
  "simulateAll h [] k ws = Inr h"
| "simulateAll h (a # rest) k ws =
     (case simulateAccess h a (ws k) of
        Inl err \<Rightarrow> Inl err
      | Inr (h', tr) \<Rightarrow> simulateAll h' rest (Suc k) ws)"

definition runSimulation ::
  "MemoryHierarchy \<Rightarrow> int \<Rightarrow> int \<Rightarrow> int \<Rightarrow> (nat \<Rightarrow> int) \<Rightarrow> (nat \<Rightarrow> walkEnv) \<Rightarrow> error + Summary"
where
  "runSimulation h patternChoice startAddress endAddress rands ws =
     (case generateAddresses patternChoice startAddress endAddress rands of
        Inl err \<Rightarrow> Inl err
      | Inr addresses \<Rightarrow>
          (case simulateAll h addresses 0 ws of
             Inl err \<Rightarrow> Inl err
           | Inr h' \<Rightarrow> report (analyzer h')))"

section \<open>Notions used by the properties\<close>

text \<open>A cache built by the constructor and then probed; the clock standing at \<open>t\<close>.\<close>

definition runCache ::
  "int \<Rightarrow> int \<Rightarrow> int \<Rightarrow> ReplacementPolicy \<Rightarrow> (int \<times> env) list \<Rightarrow> error + (Cache \<times> bool list)" where
  "runCache s bs atm rp ps = (case Cache s bs atm rp of Inl err \<Rightarrow> Inl err | Inr c \<Rightarrow> probes c ps)"

definition atTime :: "int \<Rightarrow> env" where
  "atTime t = \<lparr>time1 = t, time2 = t, swaps = [], rnd = 0\<rparr>"

definition allAtTime :: "int \<Rightarrow> walkEnv" where
  "allAtTime t =
     \<lparr>tlbEnv = atTime t, translationEnv = atTime t, cacheEnv = (\<lambda>i. atTime t), ramEnv = atTime t\<rparr>"

text \<open>The place of a level in the order TLB, L1, L2, L3, RAM, DISK.\<close>

fun rank :: "Level \<Rightarrow> nat" where
  "rank TLBLevel = 0"
| "rank (CacheLevel i) = i + 1"
| "rank RAM = 4"
| "rank DISK = 5"

definition levelsOf :: "trace \<Rightarrow> Level list" where
  "levelsOf tr = map fst tr"

definition levelOrdered :: "trace \<Rightarrow> bool" where
  "levelOrdered tr = sorted (map rank (levelsOf tr))"

text \<open>
  What the constructors establish and every probe keeps: as many blocks as \<^verbatim>\<open>numBlocks\<close>
  says and, under the Random policy, \<^verbatim>\<open>randomIndices\<close> a permutation of the block indices.
\<close>

definition wellFormed :: "'a TLB_scheme \<Rightarrow> bool" where
  "wellFormed c =
     (0 \<le> numBlocks c \<and> length (blocks c) = nat (numBlocks c) \<and>
      (policy c = RANDOM \<longrightarrow> mset (randomIndices c) = mset (map int [0..<nat (numBlocks c)])))"

text \<open>
  The calls of \<^verbatim>\<open>logAccess\<close> of a trace, made in order on an analyzer.
\<close>

definition logAll :: "trace \<Rightarrow> PerformanceAnalyzer \<Rightarrow> PerformanceAnalyzer" where
  "logAll tr an = fold (\<lambda>(lv, hit, k). logAccess hit k) tr an"

text \<open>
  The traces that \<^verbatim>\<open>simulateAccess\<close> can produce with \<open>n\<close> caches are a translation part
  followed by a data part. \<open>missedCaches i k\<close> are the misses of the \<open>k\<close> caches from
  \<^verbatim>\<open>caches[i]\<close> on.
\<close>

definition missedCaches :: "nat \<Rightarrow> nat \<Rightarrow> trace" where
  "missedCaches i k = map (\<lambda>j. (CacheLevel j, False, j + 1)) [i..<i + k]"

definition translationParts :: "nat \<Rightarrow> trace list" where
  "translationParts n =
     [[(TLBLevel, True, 0)],
      [(TLBLevel, False, 0), (RAM, True, n)],
      [(TLBLevel, False, 0), (RAM, False, n), (DISK, False, n + 1)]]"

definition dataParts :: "nat \<Rightarrow> trace list" where
  "dataParts n =
     map (\<lambda>k. missedCaches 0 k @ [(CacheLevel k, True, k + 1)]) [0..<n] @
     [missedCaches 0 n @ [(RAM, True, n)],
      missedCaches 0 n @ [(RAM, False, n), (DISK, False, n + 1), (DISK, True, n + 1)]]"

text \<open>The levels with their flags, and the levels of the longest data part, in order.\<close>

definition outcomesOf :: "trace \<Rightarrow> (Level \<times> bool) list" where
  "outcomesOf tr = map (\<lambda>(lv, hit, k). (lv, hit)) tr"

definition dataLevels :: "nat \<Rightarrow> Level list" where
  "dataLevels n = map CacheLevel [0..<n] @ [RAM, DISK, DISK]"

text \<open>
  A hierarchy with two cache levels as the constructor builds it, and the same hierarchy
  after the access to the address 0.
\<close>

definition coldHierarchy :: MemoryHierarchy where
  "coldHierarchy =
     projr (MemoryHierarchy [2, 2] [1, 1] [1, 1] [FIFO, FIFO] 4 1 5 FIFO 100 50 2 1 FIFO)"

definition warmHierarchy :: MemoryHierarchy where
  "warmHierarchy = fst (projr (simulateAccess coldHierarchy 0 (allAtTime 0)))"

text \<open>
  A level on which every probe of an address that is not negative is defined: it has a
  block, it is well formed, and the indices in its queue are indices of blocks. A hierarchy
  is sound when all its levels are, with positive block sizes and a positive size of the TLB.
\<close>

definition soundLevel :: "'a TLB_scheme \<Rightarrow> bool" where
  "soundLevel c =
     (0 < numBlocks c \<and> wellFormed c \<and> (\<forall>i \<in> set (fifoQueue c). 0 \<le> i \<and> i < numBlocks c))"

definition soundHierarchy :: "MemoryHierarchy \<Rightarrow> bool" where
  "soundHierarchy h =
     ((\<forall>c \<in> set (caches h). soundLevel c \<and> 0 < blockSize c) \<and>
      soundLevel (ram h) \<and> 0 < blockSize (ram h) \<and>
      soundLevel (tlb h) \<and> 0 < size_c (tlb h))"

text \<open>A \<^verbatim>\<open>std::rand()\<close> that returns 0 at every call.\<close>

definition noRands :: "nat \<Rightarrow> int" where
  "noRands i = 0"

text \<open>
  The probes behind a trace. \<open>translationWalk\<close> relates the result \<open>tt\<close> of the probe of the
  TLB to the translation part \<open>pre\<close> of the trace and to the RAM \<open>ram1\<close> after it: on a miss
  of the TLB the RAM is probed with the readings \<^verbatim>\<open>translationEnv\<close>. \<open>dataWalk\<close> relates the
  data part \<open>d\<close> to the probes of the caches and of the RAM: the first \<open>k\<close> caches are probed
  and miss, the cache \<open>k\<close>, if there is one, is probed and hits, the caches after it are not
  probed and keep their state, and the RAM is probed when all caches missed.
\<close>

definition translationWalk ::
  "MemoryHierarchy \<Rightarrow> int \<Rightarrow> walkEnv \<Rightarrow> int \<Rightarrow> Cache \<Rightarrow> trace \<Rightarrow> bool" where
  "translationWalk h a w tt ram1 pre =
     (tt \<noteq> - 1 \<and> pre = [(TLBLevel, True, 0)] \<and> ram1 = ram h
      \<or> tt = - 1 \<and>
        (\<exists>rt. access (ram h) a (translationEnv w) = Inr (ram1, rt) \<and>
           (rt \<noteq> - 1 \<and> pre = [(TLBLevel, False, 0), (RAM, True, length (caches h))]
            \<or> rt = - 1 \<and>
              pre = [(TLBLevel, False, 0), (RAM, False, length (caches h)),
                     (DISK, False, length (caches h) + 1)])))"

definition dataWalk ::
  "Cache list \<Rightarrow> Cache \<Rightarrow> int \<Rightarrow> walkEnv \<Rightarrow> Cache list \<Rightarrow> Cache \<Rightarrow> nat \<Rightarrow> trace \<Rightarrow> bool" where
  "dataWalk cs ram1 a w cs' ram' k d =
     (k \<le> length cs \<and> length cs' = length cs \<and>
      (\<forall>j < k. access (cs ! j) a (cacheEnv w j) = Inr (cs' ! j, - 1)) \<and>
      (\<forall>j. k < j \<and> j < length cs \<longrightarrow> cs' ! j = cs ! j) \<and>
      (k < length cs \<and>
         (\<exists>ct. ct \<noteq> - 1 \<and> access (cs ! k) a (cacheEnv w k) = Inr (cs' ! k, ct)) \<and>
         d = missedCaches 0 k @ [(CacheLevel k, True, k + 1)] \<and> ram' = ram1
       \<or> k = length cs \<and>
         (\<exists>rt. access ram1 a (ramEnv w) = Inr (ram', rt) \<and>
            (rt \<noteq> - 1 \<and> d = missedCaches 0 k @ [(RAM, True, k)]
             \<or> rt = - 1 \<and>
               d = missedCaches 0 k @
                     [(RAM, False, k), (DISK, False, k + 1), (DISK, True, k + 1)]))))"

section \<open>The example hierarchy\<close>

text \<open>The constructor succeeds on the example, and so does its first access.\<close>

lemma coldHierarchy_built:
  "MemoryHierarchy [2, 2] [1, 1] [1, 1] [FIFO, FIFO] 4 1 5 FIFO 100 50 2 1 FIFO =
     Inr coldHierarchy"
  by code_simp

lemma warmHierarchy_reached:
  "map_sum id fst (simulateAccess coldHierarchy 0 (allAtTime 0)) = Inr warmHierarchy"
  by code_simp

section \<open>What a probe leaves unchanged\<close>

lemma mset_shuffle: "mset (shuffle sw xs) = mset xs"
  unfolding shuffle_def
proof (induction sw arbitrary: xs)
  case Nil
  then show ?case by simp
next
  case (Cons p sw)
  obtain i j where p: "p = (i, j)" by (cases p)
  show ?case
    by (simp add: p Cons.IH mset_swap)
qed

lemma setBlock_length: "setBlock bs i t = Inr bs' \<Longrightarrow> length bs' = length bs"
  by (auto simp: setBlock_def split: if_splits)

lemma wellFormed_Cache: "Cache s bs atm rp = Inr c \<Longrightarrow> wellFormed c"
  by (auto simp: Cache_def wellFormed_def split: if_splits)

lemma wellFormed_TLB: "TLB s atm rp = Inr c \<Longrightarrow> wellFormed c"
  by (auto simp: TLB_def wellFormed_def split: if_splits)

lemma replace_fixed:
  "replace c i t e = Inr c' \<Longrightarrow>
     policy c' = policy c \<and> numBlocks c' = numBlocks c \<and> length (blocks c') = length (blocks c) \<and>
     TLB.more c' = TLB.more c \<and> accessTime c' = accessTime c \<and>
     mset (randomIndices c') = mset (randomIndices c)"
  by (cases "policy c")
     (auto simp: replace_def Let_def mset_shuffle dest: setBlock_length
           split: if_splits list.splits sum.splits option.splits)

lemma wellFormed_replace: "wellFormed c \<Longrightarrow> replace c i t e = Inr c' \<Longrightarrow> wellFormed c'"
  using replace_fixed [of c i t e c'] by (simp add: wellFormed_def)

lemma replace_blockSize:
  fixes c :: Cache
  shows "replace c i t e = Inr c' \<Longrightarrow> blockSize c' = blockSize c"
  by (cases "policy c")
     (auto simp: replace_def Let_def split: if_splits list.splits sum.splits option.splits)

lemma access_fixed:
  "access c a e = Inr (c', r) \<Longrightarrow>
     policy c' = policy c \<and> numBlocks c' = numBlocks c \<and> length (blocks c') = length (blocks c) \<and>
     blockSize c' = blockSize c \<and> accessTime c' = accessTime c \<and>
     mset (randomIndices c') = mset (randomIndices c)"
  unfolding access_def Let_def
  by (auto split: sum.splits if_splits dest: replace_fixed replace_blockSize)

lemma wellFormed_access: "wellFormed c \<Longrightarrow> access c a e = Inr (c', r) \<Longrightarrow> wellFormed c'"
  using access_fixed [of c a e c' r] by (simp add: wellFormed_def)

lemma probes_fixed:
  "probes c ps = Inr (c', hs) \<Longrightarrow>
     policy c' = policy c \<and> numBlocks c' = numBlocks c \<and> blockSize c' = blockSize c \<and>
     accessTime c' = accessTime c"
proof (induction ps arbitrary: c hs)
  case Nil
  then show ?case by simp
next
  case (Cons p ps)
  obtain a e where p: "p = (a, e)" by (cases p)
  from Cons.prems obtain c1 r hs1 where
    step: "access c a e = Inr (c1, r)" and rest: "probes c1 ps = Inr (c', hs1)"
    by (auto simp: p split: sum.splits prod.splits)
  show ?case using Cons.IH [OF rest] access_fixed [OF step] by simp
qed

lemma wellFormed_probes: "wellFormed c \<Longrightarrow> probes c ps = Inr (c', hs) \<Longrightarrow> wellFormed c'"
proof (induction ps arbitrary: c hs)
  case Nil
  then show ?case by simp
next
  case (Cons p ps)
  obtain a e where p: "p = (a, e)" by (cases p)
  from Cons.prems(2) obtain c1 r hs1 where
    step: "access c a e = Inr (c1, r)" and rest: "probes c1 ps = Inr (c', hs1)"
    by (auto simp: p split: sum.splits prod.splits)
  show ?case using Cons.IH [OF wellFormed_access [OF Cons.prems(1) step] rest] .
qed

lemma firstFree_finds:
  assumes "\<forall>r \<in> set rs. 0 \<le> r \<and> r < int (length bs)"
  shows "(\<exists>r \<in> set rs. \<not> valid (bs ! nat r)) \<Longrightarrow>
           \<exists>r \<in> set rs. \<not> valid (bs ! nat r) \<and> firstFree bs rs = Inr (Some r)"
  using assms by (induction rs) (auto simp: blockAt_def)

lemma runCache_wellFormed:
  "runCache s bs atm rp ps = Inr (c, hs) \<Longrightarrow> wellFormed c \<and> policy c = rp"
proof -
  assume run: "runCache s bs atm rp ps = Inr (c, hs)"
  then obtain c0 where c0: "Cache s bs atm rp = Inr c0" and ps: "probes c0 ps = Inr (c, hs)"
    by (auto simp: runCache_def split: sum.splits)
  have "policy c0 = rp" using c0 by (auto simp: Cache_def split: if_splits)
  then show ?thesis
    using wellFormed_probes [OF wellFormed_Cache [OF c0] ps] probes_fixed [OF ps] by simp
qed

section \<open>Replacement\<close>

text \<open>
  C8. Random policy: in every state that a cache built by the constructor reaches through
  probes, an admission made while some block is not occupied succeeds and changes exactly
  one block, which was not occupied before and now holds the new tag. So no resident block
  is evicted as long as a free block exists.
\<close>

theorem C8_random_fills_before_evicting:
  assumes run: "runCache s bs atm RANDOM ps = Inr (c, hs)"
      and free: "\<exists>b \<in> set (blocks c). \<not> valid b"
  shows "\<exists>c' j. replace c index tg e = Inr c' \<and> j < length (blocks c) \<and>
           \<not> valid (blocks c ! j) \<and> blocks c' = (blocks c)[j := \<lparr>tag = tg, valid = True\<rparr>]"
proof -
  from runCache_wellFormed [OF run] have wf: "wellFormed c" and pol: "policy c = RANDOM"
    by simp_all
  let ?ri = "shuffle (swaps e) (randomIndices c)"
  let ?n = "nat (numBlocks c)"
  have len: "length (blocks c) = ?n" using wf by (simp add: wellFormed_def)
  have ms: "mset ?ri = mset (map int [0..<?n])"
    using wf pol by (simp add: wellFormed_def mset_shuffle)
  then have set_ri: "set ?ri = int ` {0..<?n}"
    by (metis mset_eq_setD set_map set_upt)
  have "length ?ri = ?n" using ms by (metis size_mset length_map length_upt diff_zero)
  then have tk: "take ?n ?ri = ?ri" by simp
  have rng: "\<forall>r \<in> set ?ri. 0 \<le> r \<and> r < int (length (blocks c))"
    using set_ri len by auto
  from free obtain k where k: "k < length (blocks c)" "\<not> valid (blocks c ! k)"
    by (auto simp: in_set_conv_nth)
  then have "\<exists>r \<in> set ?ri. \<not> valid (blocks c ! nat r)"
    using set_ri len by (intro bexI [of _ "int k"]) auto
  from firstFree_finds [OF rng this] obtain r where
    r: "r \<in> set ?ri" "\<not> valid (blocks c ! nat r)" "firstFree (blocks c) ?ri = Inr (Some r)"
    by blast
  have r_rng: "0 \<le> r" "r < int (length (blocks c))" using rng r(1) by auto
  have "replace c index tg e =
          Inr (c\<lparr>blocks := (blocks c)[nat r := \<lparr>tag = tg, valid = True\<rparr>], randomIndices := ?ri\<rparr>)"
    using r(3) r_rng by (simp add: replace_def pol Let_def tk setBlock_def)
  then show ?thesis using r(2) r_rng by (intro exI [of _ _] exI [of _ "nat r"]) auto
qed

theorem C8_random_fills_before_evicting_witness:
  "runCache 2 1 0 RANDOM [(1, atTime 0)] =
     Inr (\<lparr>size_c = 2, numBlocks = 2, accessTime = 0, policy = RANDOM,
            blocks = [\<lparr>tag = 1, valid = True\<rparr>, \<lparr>tag = - 1, valid = False\<rparr>],
            fifoQueue = [], lruMap = [], randomIndices = [0, 1], blockSize = 1\<rparr>, [False]) \<and>
   (\<exists>c' j. replace \<lparr>size_c = 2, numBlocks = 2, accessTime = 0, policy = RANDOM,
                     blocks = [\<lparr>tag = 1, valid = True\<rparr>, \<lparr>tag = - 1, valid = False\<rparr>],
                     fifoQueue = [], lruMap = [], randomIndices = [0, 1], blockSize = 1\<rparr>
              1 3 (atTime 0) = Inr c' \<and> j = 1 \<and>
            blocks c' = [\<lparr>tag = 1, valid = True\<rparr>, \<lparr>tag = 3, valid = True\<rparr>])"
proof -
  let ?c = "\<lparr>size_c = 2, numBlocks = 2, accessTime = 0, policy = RANDOM,
            blocks = [\<lparr>tag = 1, valid = True\<rparr>, \<lparr>tag = - 1, valid = False\<rparr>],
            fifoQueue = [], lruMap = [], randomIndices = [0, 1], blockSize = 1\<rparr>"
  have run: "runCache 2 1 0 RANDOM [(1, atTime 0)] = Inr (?c, [False])"
    by code_simp
  have free: "\<exists>b \<in> set (blocks ?c). \<not> valid b"
    by simp
  from C8_random_fills_before_evicting [OF run free, of 1 3 "atTime 0"]
  obtain c' j where
    c': "replace ?c 1 3 (atTime 0) = Inr c'" and j: "j < length (blocks ?c)"
    and inv: "\<not> valid (blocks ?c ! j)"
    and bl: "blocks c' = (blocks ?c)[j := \<lparr>tag = 3, valid = True\<rparr>]"
    by blast
  have "j = 1" using j inv by (cases j) auto
  then show ?thesis using run c' bl by simp
qed

text \<open>
  C1. A tag can be resident in two occupied blocks. A FIFO cache of two blocks with block
  size 1 is probed with the addresses 0, 2, 1, 1, 1. The lookup reads only the home block of
  a tag, while a full queue makes \<^verbatim>\<open>replace\<close> write the block at the front of the queue: the
  tag 1 is written to block 0, is not found in its home block 1 by the next two probes, and
  ends in both blocks.
\<close>

theorem C1_duplicate_residency_fifo:
  "case runCache 2 1 0 FIFO
          [(0, atTime 0), (2, atTime 0), (1, atTime 0), (1, atTime 0), (1, atTime 0)] of
     Inl err \<Rightarrow> False
   | Inr (c, hs) \<Rightarrow>
       blocks c = [\<lparr>tag = 1, valid = True\<rparr>, \<lparr>tag = 1, valid = True\<rparr>] \<and>
       \<not> distinct (residentTags c)"
  by code_simp

text \<open>
  C3. A miss under LRU can leave the probed tag out of the cache. An LRU cache of two blocks
  with block size 1 is probed with the addresses 0, 2, 4 at the seconds 1, 2, 3. All three
  are misses with the home block 0. At the third probe \<^verbatim>\<open>lruMap\<close> has two entries, the oldest
  tag 0 is erased from it, no block holds the tag 0 any more, the loop over the blocks ends
  without a match and nothing is installed: the tag 4 is in no block.
\<close>

theorem C3_lru_miss_without_install:
  "case runCache 2 1 0 LRU [(0, atTime 1), (2, atTime 2), (4, atTime 3)] of
     Inl err \<Rightarrow> False
   | Inr (c, hs) \<Rightarrow> hs = [False, False, False] \<and> 4 \<notin> set (residentTags c)"
  by code_simp

text \<open>
  C4. The scenario of an LRU cache of capacity 2 and block size 1 probed with 0, 1, 0, 2,
  when the four probes fall into the same second \<open>t\<close> of the clock: the outcomes are miss,
  miss, hit, miss, but no stamp is older than the time of the last probe, so no victim is
  chosen, the tag 2 is not installed and the resident tags are still 0 and 1.
\<close>

theorem C4_lru_scenario_same_second:
  "case runCache 2 1 0 LRU [(0, atTime t), (1, atTime t), (0, atTime t), (2, atTime t)] of
     Inl err \<Rightarrow> False
   | Inr (c, hs) \<Rightarrow> hs = [False, False, True, False] \<and> residentTags c = [0, 1]"
  by (simp add: runCache_def Cache_def atTime_def access_def getIndex_def blockAt_def
        setBlock_def replace_def cdiv_def cmod_def emptyBlock_def lruOldest_def
        residentTags_def AList.delete_eq Let_def eval_nat_numeral)

section \<open>Construction\<close>

lemma cdiv_nonneg: "0 \<le> a \<Longrightarrow> 0 < b \<Longrightarrow> cdiv a b = a div b"
  by (cases "a = 0") (simp_all add: cdiv_def)

lemma cmod_nonneg: "0 \<le> a \<Longrightarrow> 0 < b \<Longrightarrow> cmod a b = a mod b"
  by (cases "a = 0") (simp_all add: cmod_def)

text \<open>
  C7 (as amended). The constructor of \<^verbatim>\<open>Cache\<close> validates nothing. With a positive block size
  and a capacity that is not negative it always succeeds, with the quotient of the capacity
  by the block size (rounded down) as the number of blocks, all of them unoccupied. When the
  capacity is smaller than the block size, zero included, the cache has no block and every
  later probe divides by zero in its index computation. When the capacity is at least the
  block size there is at least one block, and the index of every address that is not
  negative is computed and lies within the blocks.
\<close>

theorem C7_construction_without_validation:
  assumes "0 < bs" and "0 \<le> s"
  shows "\<exists>c. Cache s bs atm rp = Inr c \<and> numBlocks c = s div bs \<and>
           length (blocks c) = nat (s div bs) \<and> (\<forall>b \<in> set (blocks c). \<not> valid b) \<and>
           (s < bs \<longrightarrow> numBlocks c = 0 \<and> (\<forall>a e. access c a e = Inl DivisionByZero)) \<and>
           (bs \<le> s \<longrightarrow> 1 \<le> numBlocks c \<and>
              (\<forall>a \<ge> 0. \<exists>i. getIndex c a = Inr i \<and> 0 \<le> i \<and> i < numBlocks c))"
proof -
  have q: "cdiv s bs = s div bs" using assms by (simp add: cdiv_nonneg)
  have nn: "0 \<le> s div bs" using assms by (simp add: pos_imp_zdiv_nonneg_iff)
  let ?c = "\<lparr>size_c = s, numBlocks = s div bs, accessTime = atm, policy = rp,
             blocks = replicate (nat (s div bs)) emptyBlock, fifoQueue = [], lruMap = [],
             randomIndices = (if rp = RANDOM then map int [0..<nat (s div bs)] else []),
             blockSize = bs\<rparr>"
  have c: "Cache s bs atm rp = Inr ?c"
    using assms nn by (simp add: Cache_def q)
  have small: "s < bs \<longrightarrow> numBlocks ?c = 0 \<and> (\<forall>a e. access ?c a e = Inl DivisionByZero)"
    using assms by (simp add: access_def getIndex_def div_pos_pos_trivial)
  have big: "bs \<le> s \<longrightarrow> 1 \<le> numBlocks ?c \<and>
              (\<forall>a \<ge> 0. \<exists>i. getIndex ?c a = Inr i \<and> 0 \<le> i \<and> i < numBlocks ?c)"
  proof (intro impI conjI allI)
    assume le: "bs \<le> s"
    then have "bs div bs \<le> s div bs" using assms by (intro zdiv_mono1) simp_all
    then show one: "1 \<le> numBlocks ?c" using assms by simp
    fix a :: int
    assume a: "0 \<le> a"
    have d: "cdiv a bs = a div bs" "0 \<le> a div bs"
      using a assms by (simp_all add: cdiv_nonneg pos_imp_zdiv_nonneg_iff)
    have "cmod (cdiv a bs) (s div bs) = (a div bs) mod (s div bs)"
      using d one by (simp add: cmod_nonneg)
    then show "\<exists>i. getIndex ?c a = Inr i \<and> 0 \<le> i \<and> i < numBlocks ?c"
      using one assms by (simp add: getIndex_def)
  qed
  have nb: "numBlocks ?c = s div bs" and len: "length (blocks ?c) = nat (s div bs)"
    and inv: "\<forall>b \<in> set (blocks ?c). \<not> valid b"
    by (simp_all add: emptyBlock_def)
  show ?thesis
    using c nb len inv small big by blast
qed

theorem C7_construction_without_validation_witness:
  "(0::int) < 4 \<and> (0::int) \<le> 3 \<and> (3::int) < 4 \<and> (4::int) \<le> 8 \<and>
   (\<exists>c. Cache 3 4 0 FIFO = Inr c \<and> numBlocks c = 0 \<and> blocks c = [] \<and>
        access c 0 (atTime 0) = Inl DivisionByZero) \<and>
   (\<exists>c. Cache 8 4 0 FIFO = Inr c \<and> numBlocks c = 2 \<and> length (blocks c) = 2 \<and>
        (\<exists>i. getIndex c 13 = Inr i \<and> 0 \<le> i \<and> i < 2))"
proof -
  have a: "\<exists>c. Cache 3 4 0 FIFO = Inr c \<and> numBlocks c = 0 \<and> blocks c = [] \<and>
        access c 0 (atTime 0) = Inl DivisionByZero"
    using C7_construction_without_validation [of 4 3 0 FIFO] by auto
  have b: "\<exists>c. Cache 8 4 0 FIFO = Inr c \<and> numBlocks c = 2 \<and> length (blocks c) = 2 \<and>
        (\<exists>i. getIndex c 13 = Inr i \<and> 0 \<le> i \<and> i < 2)"
    using C7_construction_without_validation [of 4 8 0 FIFO] by auto
  show ?thesis using a b by simp
qed

text \<open>
  C7 (as stated) fails: with the capacity 3 and the block size 4, and with the capacity 0,
  the constructor succeeds and the cache has zero blocks.
\<close>

theorem C7_zero_blocks_counterexample:
  "Cache 3 4 0 FIFO =
     Inr \<lparr>size_c = 3, numBlocks = 0, accessTime = 0, policy = FIFO, blocks = [],
          fifoQueue = [], lruMap = [], randomIndices = [], blockSize = 4\<rparr> \<and>
   Cache 0 1 0 FIFO =
     Inr \<lparr>size_c = 0, numBlocks = 0, accessTime = 0, policy = FIFO, blocks = [],
          fifoQueue = [], lruMap = [], randomIndices = [], blockSize = 1\<rparr>"
  by code_simp

section \<open>The time stamps of LRU\<close>




section \<open>The report\<close>

lemma reportLevels_fresh:
  assumes "\<forall>i \<in> set is. i < n"
  shows "reportLevels (PerformanceAnalyzer n) is = Inr (map (\<lambda>i. (NaN, NaN)) is)"
  using assms by (induction "is") (simp_all add: PerformanceAnalyzer_def ddiv_def)

text \<open>
  C6 (as amended). A hierarchy with at least two cache levels runs an empty stream of
  addresses. The report is produced and shows 0 accesses, 0 hits and 0 misses; every rate,
  overall and per level, is the quotient of zero by zero in \<^verbatim>\<open>double\<close>, which is not a number
  and is not 0. Nothing guards the divisions.
\<close>

theorem C6_empty_stream_report:
  assumes "MemoryHierarchy cacheSizes blockSizes accessTimes policies
             ramSize ramBlockSize ramAt ramPolicy diskSize diskAt tlbSize tlbAt tlbPolicy = Inr h"
      and "2 \<le> length cacheSizes"
      and "generateAddresses patternChoice startAddress endAddress rands = Inr []"
  shows "runSimulation h patternChoice startAddress endAddress rands ws =
           Inr \<lparr>shownAccesses = 0, shownHits = 0, shownMisses = 0,
                overallHitRate = NaN, overallMissRate = NaN,
                levelRates = [(NaN, NaN), (NaN, NaN), (NaN, NaN)]\<rparr>"
proof -
  have an: "analyzer h = PerformanceAnalyzer (length cacheSizes + 1)"
    using assms(1) by (auto simp: MemoryHierarchy_def split: sum.splits)
  have "\<forall>i \<in> set [0..<3]. i < length cacheSizes + 1"
    using assms(2) by auto
  from reportLevels_fresh [OF this]
  have "report (analyzer h) =
          Inr \<lparr>shownAccesses = 0, shownHits = 0, shownMisses = 0,
               overallHitRate = NaN, overallMissRate = NaN,
               levelRates = [(NaN, NaN), (NaN, NaN), (NaN, NaN)]\<rparr>"
    by (simp add: report_def an) (simp add: PerformanceAnalyzer_def ddiv_def eval_nat_numeral)
  then show ?thesis
    using assms(3) by (simp add: runSimulation_def)
qed

theorem C6_empty_stream_report_witness:
  "MemoryHierarchy [2, 2] [1, 1] [1, 1] [FIFO, FIFO] 4 1 5 FIFO 100 50 2 1 FIFO =
     Inr coldHierarchy \<and>
   2 \<le> length [2, 2 :: int] \<and>
   generateAddresses 1 10 0 noRands = Inr [] \<and>
   runSimulation coldHierarchy 1 10 0 noRands allAtTime =
     Inr \<lparr>shownAccesses = 0, shownHits = 0, shownMisses = 0,
          overallHitRate = NaN, overallMissRate = NaN,
          levelRates = [(NaN, NaN), (NaN, NaN), (NaN, NaN)]\<rparr>"
proof -
  note c = coldHierarchy_built
  have g: "generateAddresses 1 10 0 noRands = Inr []"
    by code_simp
  show ?thesis
    using c g C6_empty_stream_report [OF c _ g, of allAtTime] by simp
qed

text \<open>
  C6 (as stated) fails: the sequential pattern from 10 to 0 is the empty stream, and the
  rates of its report are not 0.
\<close>

theorem C6_rates_not_zero_counterexample:
  "map_sum id shownAccesses (runSimulation coldHierarchy 1 10 0 noRands allAtTime) = Inr 0 \<and>
   map_sum id overallHitRate (runSimulation coldHierarchy 1 10 0 noRands allAtTime) = Inr NaN \<and>
   map_sum id overallMissRate (runSimulation coldHierarchy 1 10 0 noRands allAtTime) = Inr NaN \<and>
   map_sum id levelRates (runSimulation coldHierarchy 1 10 0 noRands allAtTime) =
     Inr [(NaN, NaN), (NaN, NaN), (NaN, NaN)] \<and>
   NaN \<noteq> Finite 0"
  by code_simp

text \<open>
  C10. With one cache level the vectors of counters have two entries, and the loop of
  \<^verbatim>\<open>report\<close>, which always runs over the indices 0, 1 and 2, reads \<^verbatim>\<open>cacheHits[2]\<close> outside the
  vector.
\<close>

theorem C10_report_reads_past_counters:
  "case MemoryHierarchy [2] [1] [1] [FIFO] 4 1 5 FIFO 100 50 2 1 FIFO of
     Inl err \<Rightarrow> False
   | Inr h \<Rightarrow>
       length (cacheHits (analyzer h)) = 2 \<and> length (cacheMisses (analyzer h)) = 2 \<and>
       runSimulation h 1 0 0 noRands allAtTime = Inl OutOfRange"
  by code_simp

section \<open>The walk through the hierarchy\<close>

lemma logAll_append: "logAll (xs @ ys) an = logAll ys (logAll xs an)"
  by (simp add: logAll_def)

lemma logAll_Nil: "logAll [] an = an"
  by (simp add: logAll_def)

lemma logAll_Cons: "logAll ((lv, hit, k) # xs) an = logAll xs (logAccess hit k an)"
  by (simp add: logAll_def)

lemma snd_logOutcome: "snd (logOutcome lv hit k st) = snd st @ [(lv, hit, k)]"
  by (simp add: logOutcome_def)

lemma fst_logOutcome: "fst (logOutcome lv hit k st) = logAccess hit k (fst st)"
  by (simp add: logOutcome_def)

lemma missedCaches_Suc: "missedCaches i (Suc k) = (CacheLevel i, False, i + 1) # missedCaches (Suc i) k"
  by (simp add: missedCaches_def upt_rec)

lemma missedCaches_0: "missedCaches i 0 = []"
  by (simp add: missedCaches_def)

lemma accessCaches_shape:
  "accessCaches cs i a ce st = Inr (cs', st', found) \<Longrightarrow>
     \<exists>k. k \<le> length cs \<and> (found \<longrightarrow> k < length cs) \<and> (\<not> found \<longrightarrow> k = length cs) \<and>
         snd st' = snd st @ missedCaches i k @
                     (if found then [(CacheLevel (i + k), True, i + k + 1)] else []) \<and>
         fst st' = logAll (missedCaches i k @
                     (if found then [(CacheLevel (i + k), True, i + k + 1)] else [])) (fst st) \<and>
         length cs' = length cs"
proof (induction cs arbitrary: i st cs' st' found)
  case Nil
  then show ?case by (auto simp: missedCaches_0 logAll_Nil)
next
  case (Cons c cs)
  from Cons.prems obtain c1 time where acc: "access c a (ce i) = Inr (c1, time)"
    by (auto split: sum.splits)
  show ?case
  proof (cases "time \<noteq> - 1")
    case True
    with Cons.prems acc have "cs' = c1 # cs" "st' = logOutcome (CacheLevel i) True (i + 1) st" "found"
      by auto
    then show ?thesis
      by (intro exI [of _ 0]) (simp add: missedCaches_0 snd_logOutcome fst_logOutcome logAll_Cons logAll_Nil)
  next
    case False
    with Cons.prems acc obtain cs1 where
      rest: "accessCaches cs (Suc i) a ce (logOutcome (CacheLevel i) False (i + 1) st) = Inr (cs1, st', found)"
      and cs': "cs' = c1 # cs1"
      by (auto split: sum.splits)
    from Cons.IH [OF rest] obtain k where k:
      "k \<le> length cs" "found \<longrightarrow> k < length cs" "\<not> found \<longrightarrow> k = length cs"
      "snd st' = snd (logOutcome (CacheLevel i) False (i + 1) st) @ missedCaches (Suc i) k @
                     (if found then [(CacheLevel (Suc i + k), True, Suc i + k + 1)] else [])"
      "fst st' = logAll (missedCaches (Suc i) k @
                     (if found then [(CacheLevel (Suc i + k), True, Suc i + k + 1)] else []))
                   (fst (logOutcome (CacheLevel i) False (i + 1) st))"
      "length cs1 = length cs"
      by blast
    show ?thesis
      using k cs'
      by (intro exI [of _ "Suc k"])
         (simp add: missedCaches_Suc snd_logOutcome fst_logOutcome logAll_Cons)
  qed
qed

lemma cachesRamDisk_shape:
  assumes "cachesRamDisk h a w st = Inr (h', tr)"
  shows "\<exists>d \<in> set (dataParts (length (caches h))).
           tr = snd st @ d \<and> analyzer h' = logAll d (fst st) \<and>
           length (caches h') = length (caches h)"
proof -
  let ?n = "length (caches h)"
  from assms obtain cs st1 found where
    ac: "accessCaches (caches h) 0 a (cacheEnv w) st = Inr (cs, st1, found)"
    by (auto simp: cachesRamDisk_def Let_def split: sum.splits)
  from accessCaches_shape [OF ac] obtain k where k:
    "k \<le> ?n" "found \<longrightarrow> k < ?n" "\<not> found \<longrightarrow> k = ?n"
    "snd st1 = snd st @ missedCaches 0 k @ (if found then [(CacheLevel k, True, k + 1)] else [])"
    "fst st1 = logAll (missedCaches 0 k @ (if found then [(CacheLevel k, True, k + 1)] else []))
                 (fst st)"
    "length cs = ?n"
    by auto
  show ?thesis
  proof (cases found)
    case True
    with assms ac have "h' = h\<lparr>caches := cs, analyzer := fst st1\<rparr>" "tr = snd st1"
      by (auto simp: cachesRamDisk_def Let_def)
    then show ?thesis using k True
      by (intro bexI [of _ "missedCaches 0 k @ [(CacheLevel k, True, k + 1)]"])
         (auto simp: dataParts_def)
  next
    case False
    with assms ac obtain r time where
      ra: "access (ram h) a (ramEnv w) = Inr (r, time)"
      by (auto simp: cachesRamDisk_def Let_def split: sum.splits)
    show ?thesis
    proof (cases "time \<noteq> - 1")
      case True
      with assms ac ra False have
        "h' = h\<lparr>caches := cs, ram := r, analyzer := fst (logOutcome RAM True ?n st1)\<rparr>"
        "tr = snd (logOutcome RAM True ?n st1)"
        by (auto simp: cachesRamDisk_def Let_def)
      then show ?thesis using k False
        by (intro bexI [of _ "missedCaches 0 ?n @ [(RAM, True, ?n)]"])
           (auto simp: dataParts_def snd_logOutcome fst_logOutcome logAll_append logAll_Cons logAll_Nil)
    next
      case nohit: False
      with assms ac ra False have
        "h' = h\<lparr>caches := cs, ram := r,
               analyzer := fst (logOutcome DISK True (?n + 1)
                 (logOutcome DISK False (?n + 1) (logOutcome RAM False ?n st1)))\<rparr>"
        "tr = snd (logOutcome DISK True (?n + 1)
                 (logOutcome DISK False (?n + 1) (logOutcome RAM False ?n st1)))"
        by (auto simp: cachesRamDisk_def Let_def)
      then show ?thesis using k False
        by (intro bexI [of _ "missedCaches 0 ?n @
               [(RAM, False, ?n), (DISK, False, ?n + 1), (DISK, True, ?n + 1)]"])
           (auto simp: dataParts_def snd_logOutcome fst_logOutcome logAll_append logAll_Cons logAll_Nil)
    qed
  qed
qed

lemma simulateAccess_shape:
  assumes "simulateAccess h a w = Inr (h', tr)"
  shows "\<exists>pre \<in> set (translationParts (length (caches h))).
         \<exists>d \<in> set (dataParts (length (caches h))).
           tr = pre @ d \<and> analyzer h' = logAll tr (analyzer h) \<and>
           length (caches h') = length (caches h)"
proof -
  let ?n = "length (caches h)"
  from assms obtain t time where
    ta: "tlb_access (tlb h) (cdiv a (size_c (tlb h))) (tlbEnv w) = Inr (t, time)"
    by (auto simp: simulateAccess_def Let_def split: sum.splits if_splits)
  have nz: "size_c (tlb h) \<noteq> 0"
    using assms by (auto simp: simulateAccess_def Let_def split: if_splits)
  show ?thesis
  proof (cases "time \<noteq> - 1")
    case True
    with assms ta nz have
      "cachesRamDisk (h\<lparr>tlb := t\<rparr>) a w (logOutcome TLBLevel True 0 (analyzer h, [])) = Inr (h', tr)"
      by (auto simp: simulateAccess_def Let_def)
    from cachesRamDisk_shape [OF this] obtain d where
        "d \<in> set (dataParts ?n)" "tr = [(TLBLevel, True, 0)] @ d"
        "analyzer h' = logAll tr (analyzer h)" "length (caches h') = ?n"
        by (auto simp: snd_logOutcome fst_logOutcome logAll_append logAll_Cons logAll_Nil)
      then show ?thesis
        by (auto simp: translationParts_def)
  next
    case False
    with assms ta nz obtain r time' where
      ra: "access (ram h) a (translationEnv w) = Inr (r, time')"
      by (auto simp: simulateAccess_def Let_def split: sum.splits)
    show ?thesis
    proof (cases "time' \<noteq> - 1")
      case True
      with assms ta nz ra False have
        "cachesRamDisk (h\<lparr>tlb := t, ram := r\<rparr>) a w
           (logOutcome RAM True ?n (logOutcome TLBLevel False 0 (analyzer h, []))) = Inr (h', tr)"
        by (auto simp: simulateAccess_def Let_def)
      from cachesRamDisk_shape [OF this] obtain d where
        "d \<in> set (dataParts ?n)" "tr = [(TLBLevel, False, 0), (RAM, True, ?n)] @ d"
        "analyzer h' = logAll tr (analyzer h)" "length (caches h') = ?n"
        by (auto simp: snd_logOutcome fst_logOutcome logAll_append logAll_Cons logAll_Nil)
      then show ?thesis
        by (auto simp: translationParts_def)
    next
      case nohit: False
      with assms ta nz ra False have
        "cachesRamDisk (h\<lparr>tlb := t, ram := r\<rparr>) a w
           (logOutcome DISK False (?n + 1)
              (logOutcome RAM False ?n (logOutcome TLBLevel False 0 (analyzer h, []))))
         = Inr (h', tr)"
        by (auto simp: simulateAccess_def Let_def)
      from cachesRamDisk_shape [OF this] obtain d where
        "d \<in> set (dataParts ?n)" "tr = [(TLBLevel, False, 0), (RAM, False, ?n), (DISK, False, ?n + 1)] @ d"
        "analyzer h' = logAll tr (analyzer h)" "length (caches h') = ?n"
        by (auto simp: snd_logOutcome fst_logOutcome logAll_append logAll_Cons logAll_Nil)
      then show ?thesis
        by (auto simp: translationParts_def)
    qed
  qed
qed

lemma levelsOf_missedCaches: "levelsOf (missedCaches 0 k) = map CacheLevel [0..<k]"
  by (simp add: levelsOf_def missedCaches_def comp_def)

lemma levelsOf_append: "levelsOf (xs @ ys) = levelsOf xs @ levelsOf ys"
  by (simp add: levelsOf_def)

lemma dataParts_levels:
  assumes "d \<in> set (dataParts n)"
  shows "d \<noteq> [] \<and> prefix (levelsOf d) (dataLevels n)"
proof -
  from assms consider
      (hit) k where "k < n" "d = missedCaches 0 k @ [(CacheLevel k, True, k + 1)]"
    | (ram) "d = missedCaches 0 n @ [(RAM, True, n)]"
    | (disk) "d = missedCaches 0 n @ [(RAM, False, n), (DISK, False, n + 1), (DISK, True, n + 1)]"
    by (auto simp: dataParts_def)
  then show ?thesis
  proof cases
    case hit
    have "levelsOf d = map CacheLevel [0..<Suc k]"
      by (simp add: hit levelsOf_append levelsOf_missedCaches) (simp add: levelsOf_def)
    moreover have "[0..<n] = [0..<Suc k] @ [Suc k..<n]"
      using hit(1) by (metis Suc_leI le0 upt_add_eq_append le_add_diff_inverse)
    ultimately have "dataLevels n = levelsOf d @ (map CacheLevel [Suc k..<n] @ [RAM, DISK, DISK])"
      by (simp add: dataLevels_def)
    then show ?thesis using hit(2) by (metis prefixI append_is_Nil_conv not_Cons_self2)
  next
    case ram
    have "levelsOf d = map CacheLevel [0..<n] @ [RAM]"
      by (simp add: ram levelsOf_append levelsOf_missedCaches) (simp add: levelsOf_def)
    then have "dataLevels n = levelsOf d @ [DISK, DISK]"
      by (simp add: dataLevels_def)
    then show ?thesis using ram by (metis prefixI append_is_Nil_conv not_Cons_self2)
  next
    case disk
    have "levelsOf d = dataLevels n"
      by (simp add: disk levelsOf_append levelsOf_missedCaches dataLevels_def) (simp add: levelsOf_def)
    then show ?thesis using disk by simp
  qed
qed

lemma sorted_dataLevels: "n \<le> 3 \<Longrightarrow> sorted (map rank (dataLevels n))"
  by (auto simp: dataLevels_def sorted_append comp_def sorted_map
      intro!: sorted_wrt_mono_rel [of _ "(<)"] simp: sorted_wrt_upt)

lemma dataParts_ordered:
  assumes "n \<le> 3" "d \<in> set (dataParts n)"
  shows "levelOrdered d"
proof -
  from dataParts_levels [OF assms(2)] obtain zs where "dataLevels n = levelsOf d @ zs"
    by (auto simp: prefix_def)
  with sorted_dataLevels [OF assms(1)] show ?thesis
    by (simp add: levelOrdered_def sorted_append)
qed

lemma accessCaches_probes:
  "accessCaches cs i a ce st = Inr (cs', st', found) \<Longrightarrow>
     \<exists>k. k \<le> length cs \<and> (found \<longrightarrow> k < length cs) \<and> (\<not> found \<longrightarrow> k = length cs) \<and>
         length cs' = length cs \<and>
         (\<forall>j < k. access (cs ! j) a (ce (i + j)) = Inr (cs' ! j, - 1)) \<and>
         (found \<longrightarrow> (\<exists>ct. ct \<noteq> - 1 \<and> access (cs ! k) a (ce (i + k)) = Inr (cs' ! k, ct))) \<and>
         (\<forall>j. k < j \<and> j < length cs \<longrightarrow> cs' ! j = cs ! j) \<and>
         snd st' = snd st @ missedCaches i k @
                     (if found then [(CacheLevel (i + k), True, i + k + 1)] else []) \<and>
         fst st' = logAll (missedCaches i k @
                     (if found then [(CacheLevel (i + k), True, i + k + 1)] else [])) (fst st)"
proof (induction cs arbitrary: i st cs' st' found)
  case Nil
  then show ?case by (auto simp: missedCaches_0 logAll_Nil)
next
  case (Cons c cs)
  from Cons.prems obtain c1 time where acc: "access c a (ce i) = Inr (c1, time)"
    by (auto split: sum.splits)
  show ?case
  proof (cases "time \<noteq> - 1")
    case True
    with Cons.prems acc have r: "cs' = c1 # cs" "st' = logOutcome (CacheLevel i) True (i + 1) st" "found"
      by auto
    have later: "\<forall>j. 0 < j \<and> j < length (c # cs) \<longrightarrow> cs' ! j = (c # cs) ! j"
      using r(1) by (auto simp: nth_Cons split: nat.splits)
    show ?thesis
      using r acc True later
      by (intro exI [of _ 0])
         (simp add: missedCaches_0 snd_logOutcome fst_logOutcome logAll_Cons logAll_Nil)
  next
    case False
    with Cons.prems acc obtain cs1 where
      rest: "accessCaches cs (Suc i) a ce (logOutcome (CacheLevel i) False (i + 1) st) = Inr (cs1, st', found)"
      and cs': "cs' = c1 # cs1"
      by (auto split: sum.splits)
    from Cons.IH [OF rest] obtain k where k:
      "k \<le> length cs" "found \<longrightarrow> k < length cs" "\<not> found \<longrightarrow> k = length cs"
      "length cs1 = length cs"
      "\<forall>j < k. access (cs ! j) a (ce (Suc i + j)) = Inr (cs1 ! j, - 1)"
      "found \<longrightarrow> (\<exists>ct. ct \<noteq> - 1 \<and> access (cs ! k) a (ce (Suc i + k)) = Inr (cs1 ! k, ct))"
      "\<forall>j. k < j \<and> j < length cs \<longrightarrow> cs1 ! j = cs ! j"
      "snd st' = snd (logOutcome (CacheLevel i) False (i + 1) st) @ missedCaches (Suc i) k @
                     (if found then [(CacheLevel (Suc i + k), True, Suc i + k + 1)] else [])"
      "fst st' = logAll (missedCaches (Suc i) k @
                     (if found then [(CacheLevel (Suc i + k), True, Suc i + k + 1)] else []))
                   (fst (logOutcome (CacheLevel i) False (i + 1) st))"
      by blast
    have missed: "\<forall>j < Suc k. access ((c # cs) ! j) a (ce (i + j)) = Inr (cs' ! j, - 1)"
    proof (intro allI impI)
      fix j assume "j < Suc k"
      then show "access ((c # cs) ! j) a (ce (i + j)) = Inr (cs' ! j, - 1)"
        using acc False k(5) cs' by (cases j) auto
    qed
    have hit: "found \<longrightarrow>
        (\<exists>ct. ct \<noteq> - 1 \<and> access ((c # cs) ! Suc k) a (ce (i + Suc k)) = Inr (cs' ! Suc k, ct))"
      using k(6) cs' by simp
    have later: "\<forall>j. Suc k < j \<and> j < length (c # cs) \<longrightarrow> cs' ! j = (c # cs) ! j"
    proof (intro allI impI)
      fix j assume "Suc k < j \<and> j < length (c # cs)"
      then show "cs' ! j = (c # cs) ! j"
        using k(7) cs' by (cases j) auto
    qed
    show ?thesis
      using k(1-4) cs' missed hit later k(8,9)
      by (intro exI [of _ "Suc k"])
         (simp add: missedCaches_Suc snd_logOutcome fst_logOutcome logAll_Cons)
  qed
qed

lemma cachesRamDisk_probes:
  assumes "cachesRamDisk h a w st = Inr (h', tr)"
  shows "\<exists>k d. dataWalk (caches h) (ram h) a w (caches h') (ram h') k d \<and>
           tlb h' = tlb h \<and> tr = snd st @ d \<and> analyzer h' = logAll d (fst st)"
proof -
  let ?n = "length (caches h)"
  from assms obtain cs st1 found where
    ac: "accessCaches (caches h) 0 a (cacheEnv w) st = Inr (cs, st1, found)"
    by (auto simp: cachesRamDisk_def Let_def split: sum.splits)
  from accessCaches_probes [OF ac] obtain k where k:
    "k \<le> ?n" "found \<longrightarrow> k < ?n" "\<not> found \<longrightarrow> k = ?n" "length cs = ?n"
    "\<forall>j < k. access (caches h ! j) a (cacheEnv w j) = Inr (cs ! j, - 1)"
    "found \<longrightarrow> (\<exists>ct. ct \<noteq> - 1 \<and> access (caches h ! k) a (cacheEnv w k) = Inr (cs ! k, ct))"
    "\<forall>j. k < j \<and> j < ?n \<longrightarrow> cs ! j = caches h ! j"
    "snd st1 = snd st @ missedCaches 0 k @ (if found then [(CacheLevel k, True, k + 1)] else [])"
    "fst st1 = logAll (missedCaches 0 k @ (if found then [(CacheLevel k, True, k + 1)] else []))
                 (fst st)"
    by auto
  show ?thesis
  proof (cases found)
    case True
    with assms ac have "h' = h\<lparr>caches := cs, analyzer := fst st1\<rparr>" "tr = snd st1"
      by (auto simp: cachesRamDisk_def Let_def)
    then show ?thesis using k True
      by (intro exI [of _ k] exI [of _ "missedCaches 0 k @ [(CacheLevel k, True, k + 1)]"])
         (simp add: dataWalk_def)
  next
    case False
    with assms ac obtain r time where
      ra: "access (ram h) a (ramEnv w) = Inr (r, time)"
      by (auto simp: cachesRamDisk_def Let_def split: sum.splits)
    show ?thesis
    proof (cases "time \<noteq> - 1")
      case True
      with assms ac ra False have
        "h' = h\<lparr>caches := cs, ram := r, analyzer := fst (logOutcome RAM True ?n st1)\<rparr>"
        "tr = snd (logOutcome RAM True ?n st1)"
        by (auto simp: cachesRamDisk_def Let_def)
      then show ?thesis using k False ra True
        by (intro exI [of _ k] exI [of _ "missedCaches 0 k @ [(RAM, True, k)]"])
           (simp add: dataWalk_def snd_logOutcome fst_logOutcome logAll_append logAll_Cons
              logAll_Nil)
    next
      case nohit: False
      with assms ac ra False have
        "h' = h\<lparr>caches := cs, ram := r,
               analyzer := fst (logOutcome DISK True (?n + 1)
                 (logOutcome DISK False (?n + 1) (logOutcome RAM False ?n st1)))\<rparr>"
        "tr = snd (logOutcome DISK True (?n + 1)
                 (logOutcome DISK False (?n + 1) (logOutcome RAM False ?n st1)))"
        by (auto simp: cachesRamDisk_def Let_def)
      then show ?thesis using k False ra nohit
        by (intro exI [of _ k] exI [of _ "missedCaches 0 k @
               [(RAM, False, k), (DISK, False, k + 1), (DISK, True, k + 1)]"])
           (simp add: dataWalk_def snd_logOutcome fst_logOutcome logAll_append logAll_Cons
              logAll_Nil)
    qed
  qed
qed

lemma simulateAccess_probes:
  assumes "simulateAccess h a w = Inr (h', tr)"
  shows "\<exists>tt ram1 pre k d.
           tlb_access (tlb h) (cdiv a (size_c (tlb h))) (tlbEnv w) = Inr (tlb h', tt) \<and>
           translationWalk h a w tt ram1 pre \<and>
           dataWalk (caches h) ram1 a w (caches h') (ram h') k d \<and>
           tr = pre @ d \<and> analyzer h' = logAll tr (analyzer h)"
proof -
  let ?n = "length (caches h)"
  from assms obtain t time where
    ta: "tlb_access (tlb h) (cdiv a (size_c (tlb h))) (tlbEnv w) = Inr (t, time)"
    by (auto simp: simulateAccess_def Let_def split: sum.splits if_splits)
  have nz: "size_c (tlb h) \<noteq> 0"
    using assms by (auto simp: simulateAccess_def Let_def split: if_splits)
  show ?thesis
  proof (cases "time \<noteq> - 1")
    case True
    with assms ta nz have
      "cachesRamDisk (h\<lparr>tlb := t\<rparr>) a w (logOutcome TLBLevel True 0 (analyzer h, [])) = Inr (h', tr)"
      by (auto simp: simulateAccess_def Let_def)
    from cachesRamDisk_probes [OF this] obtain k d where
      dw: "dataWalk (caches h) (ram h) a w (caches h') (ram h') k d" and
      t: "tlb h' = t" and tr: "tr = [(TLBLevel, True, 0)] @ d" and
      an: "analyzer h' = logAll d (logAccess True 0 (analyzer h))"
      by (auto simp: snd_logOutcome fst_logOutcome)
    have tw: "translationWalk h a w time (ram h) [(TLBLevel, True, 0)]"
      using True by (simp add: translationWalk_def)
    have an': "analyzer h' = logAll tr (analyzer h)"
      by (simp add: an tr logAll_Cons)
    show ?thesis using ta t tw dw tr an' by blast
  next
    case False
    with assms ta nz obtain r time' where
      ra: "access (ram h) a (translationEnv w) = Inr (r, time')"
      by (auto simp: simulateAccess_def Let_def split: sum.splits)
    show ?thesis
    proof (cases "time' \<noteq> - 1")
      case True
      with assms ta nz ra False have
        "cachesRamDisk (h\<lparr>tlb := t, ram := r\<rparr>) a w
           (logOutcome RAM True ?n (logOutcome TLBLevel False 0 (analyzer h, []))) = Inr (h', tr)"
        by (auto simp: simulateAccess_def Let_def)
      from cachesRamDisk_probes [OF this] obtain k d where
        dw: "dataWalk (caches h) r a w (caches h') (ram h') k d" and
        t: "tlb h' = t" and tr: "tr = [(TLBLevel, False, 0), (RAM, True, ?n)] @ d" and
        an: "analyzer h' = logAll d (logAccess True ?n (logAccess False 0 (analyzer h)))"
        by (auto simp: snd_logOutcome fst_logOutcome)
      have tw: "translationWalk h a w time r [(TLBLevel, False, 0), (RAM, True, ?n)]"
        using False ra True by (simp add: translationWalk_def)
      have an': "analyzer h' = logAll tr (analyzer h)"
        by (simp add: an tr logAll_Cons)
      show ?thesis using ta t tw dw tr an' by blast
    next
      case nohit: False
      with assms ta nz ra False have
        "cachesRamDisk (h\<lparr>tlb := t, ram := r\<rparr>) a w
           (logOutcome DISK False (?n + 1)
              (logOutcome RAM False ?n (logOutcome TLBLevel False 0 (analyzer h, []))))
         = Inr (h', tr)"
        by (auto simp: simulateAccess_def Let_def)
      from cachesRamDisk_probes [OF this] obtain k d where
        dw: "dataWalk (caches h) r a w (caches h') (ram h') k d" and
        t: "tlb h' = t" and
        tr: "tr = [(TLBLevel, False, 0), (RAM, False, ?n), (DISK, False, ?n + 1)] @ d" and
        an: "analyzer h' = logAll d (logAccess False (?n + 1) (logAccess False ?n
               (logAccess False 0 (analyzer h))))"
        by (auto simp: snd_logOutcome fst_logOutcome)
      have tw: "translationWalk h a w time r
                  [(TLBLevel, False, 0), (RAM, False, ?n), (DISK, False, ?n + 1)]"
        using False ra nohit by (simp add: translationWalk_def)
      have an': "analyzer h' = logAll tr (analyzer h)"
        by (simp add: an tr logAll_Cons)
      show ?thesis using ta t tw dw tr an' by blast
    qed
  qed
qed

lemma outcomesOf_missedCaches:
  "outcomesOf (missedCaches 0 k) = map (\<lambda>j. (CacheLevel j, False)) [0..<k]"
  by (simp add: outcomesOf_def missedCaches_def comp_def)

lemma outcomesOf_append: "outcomesOf (xs @ ys) = outcomesOf xs @ outcomesOf ys"
  by (simp add: outcomesOf_def)

lemma outcomesOf_Cons: "outcomesOf ((lv, hit, k) # xs) = (lv, hit) # outcomesOf xs"
  by (simp add: outcomesOf_def)

lemma outcomesOf_Nil: "outcomesOf [] = []"
  by (simp add: outcomesOf_def)

lemma simulateAccess_outcomes:
  assumes "simulateAccess h a w = Inr (h', tr)"
  shows "\<exists>tt ram1 pre k d.
           tlb_access (tlb h) (cdiv a (size_c (tlb h))) (tlbEnv w) = Inr (tlb h', tt) \<and>
           (tt \<noteq> - 1 \<and> pre = [(TLBLevel, True)] \<and> ram1 = ram h
            \<or> tt = - 1 \<and>
              (\<exists>rt. access (ram h) a (translationEnv w) = Inr (ram1, rt) \<and>
                 (rt \<noteq> - 1 \<and> pre = [(TLBLevel, False), (RAM, True)]
                  \<or> rt = - 1 \<and> pre = [(TLBLevel, False), (RAM, False), (DISK, False)]))) \<and>
           k \<le> length (caches h) \<and> length (caches h') = length (caches h) \<and>
           (\<forall>j < k. access (caches h ! j) a (cacheEnv w j) = Inr (caches h' ! j, - 1)) \<and>
           (\<forall>j. k < j \<and> j < length (caches h) \<longrightarrow> caches h' ! j = caches h ! j) \<and>
           (k < length (caches h) \<and>
              (\<exists>ct. ct \<noteq> - 1 \<and> access (caches h ! k) a (cacheEnv w k) = Inr (caches h' ! k, ct)) \<and>
              d = map (\<lambda>j. (CacheLevel j, False)) [0..<k] @ [(CacheLevel k, True)] \<and>
              ram h' = ram1
            \<or> k = length (caches h) \<and>
              (\<exists>rt. access ram1 a (ramEnv w) = Inr (ram h', rt) \<and>
                 (rt \<noteq> - 1 \<and> d = map (\<lambda>j. (CacheLevel j, False)) [0..<k] @ [(RAM, True)]
                  \<or> rt = - 1 \<and>
                    d = map (\<lambda>j. (CacheLevel j, False)) [0..<k] @
                          [(RAM, False), (DISK, False), (DISK, True)]))) \<and>
           outcomesOf tr = pre @ d"
proof -
  from simulateAccess_probes [OF assms] obtain tt ram1 pre k d where
    ta: "tlb_access (tlb h) (cdiv a (size_c (tlb h))) (tlbEnv w) = Inr (tlb h', tt)" and
    tw: "translationWalk h a w tt ram1 pre" and
    dw: "dataWalk (caches h) ram1 a w (caches h') (ram h') k d" and
    tr: "tr = pre @ d"
    by blast
  have T: "tt \<noteq> - 1 \<and> outcomesOf pre = [(TLBLevel, True)] \<and> ram1 = ram h
            \<or> tt = - 1 \<and>
              (\<exists>rt. access (ram h) a (translationEnv w) = Inr (ram1, rt) \<and>
                 (rt \<noteq> - 1 \<and> outcomesOf pre = [(TLBLevel, False), (RAM, True)]
                  \<or> rt = - 1 \<and>
                    outcomesOf pre = [(TLBLevel, False), (RAM, False), (DISK, False)]))"
    using tw unfolding translationWalk_def
    by (elim disjE conjE exE) (simp_all add: outcomesOf_Cons outcomesOf_Nil)
  have D1: "k \<le> length (caches h)" "length (caches h') = length (caches h)"
    "\<forall>j < k. access (caches h ! j) a (cacheEnv w j) = Inr (caches h' ! j, - 1)"
    "\<forall>j. k < j \<and> j < length (caches h) \<longrightarrow> caches h' ! j = caches h ! j"
    using dw by (simp_all add: dataWalk_def)
  have D2: "k < length (caches h) \<and>
              (\<exists>ct. ct \<noteq> - 1 \<and> access (caches h ! k) a (cacheEnv w k) = Inr (caches h' ! k, ct)) \<and>
              outcomesOf d = map (\<lambda>j. (CacheLevel j, False)) [0..<k] @ [(CacheLevel k, True)] \<and>
              ram h' = ram1
            \<or> k = length (caches h) \<and>
              (\<exists>rt. access ram1 a (ramEnv w) = Inr (ram h', rt) \<and>
                 (rt \<noteq> - 1 \<and>
                    outcomesOf d = map (\<lambda>j. (CacheLevel j, False)) [0..<k] @ [(RAM, True)]
                  \<or> rt = - 1 \<and>
                    outcomesOf d = map (\<lambda>j. (CacheLevel j, False)) [0..<k] @
                          [(RAM, False), (DISK, False), (DISK, True)]))"
  proof -
    from dw have "k < length (caches h) \<and>
         (\<exists>ct. ct \<noteq> - 1 \<and> access (caches h ! k) a (cacheEnv w k) = Inr (caches h' ! k, ct)) \<and>
         d = missedCaches 0 k @ [(CacheLevel k, True, k + 1)] \<and> ram h' = ram1
       \<or> k = length (caches h) \<and>
         (\<exists>rt. access ram1 a (ramEnv w) = Inr (ram h', rt) \<and>
            (rt \<noteq> - 1 \<and> d = missedCaches 0 k @ [(RAM, True, k)]
             \<or> rt = - 1 \<and>
               d = missedCaches 0 k @
                     [(RAM, False, k), (DISK, False, k + 1), (DISK, True, k + 1)]))"
      by (simp add: dataWalk_def)
    then show ?thesis
      by (elim disjE conjE exE)
         (simp_all add: outcomesOf_append outcomesOf_missedCaches outcomesOf_Cons outcomesOf_Nil)
  qed
  have E: "outcomesOf tr = outcomesOf pre @ outcomesOf d"
    by (simp add: tr outcomesOf_append)
  show ?thesis
    apply (rule exI [of _ tt], rule exI [of _ ram1], rule exI [of _ "outcomesOf pre"])
    apply (rule exI [of _ k], rule exI [of _ "outcomesOf d"])
    apply (rule conjI [OF ta])
    apply (rule conjI [OF T])
    apply (rule conjI [OF D1(1)])
    apply (rule conjI [OF D1(2)])
    apply (rule conjI [OF D1(3)])
    apply (rule conjI [OF D1(4)])
    apply (rule conjI [OF D2])
    apply (rule E)
    done
qed

text \<open>
  C2 (as amended). The trace of an access is a translation part followed by a data part. The
  translation part is the hit of the TLB alone; or the miss of the TLB followed by the
  outcome of the RAM, which is probed for the translation before any cache, and, when that
  probe misses, by a miss logged for the disk. The data part is not empty: it is the misses
  of the caches L1, ..., Lk in order and without a gap, followed by the hit of the next
  cache; or the misses of all caches followed by the hit of the RAM; or the misses of all
  caches followed by the miss of the RAM and by a miss and a hit of the disk. So its levels
  are a prefix of L1, ..., Ln, RAM, DISK, DISK. With at most three caches the data part is
  non-decreasing in the order TLB, L1, L2, L3, RAM, DISK, and so is the whole trace when
  the TLB hits.
\<close>

theorem C2_trace_order:
  assumes "simulateAccess h a w = Inr (h', tr)"
  shows "\<exists>pre d k. tr = pre @ d \<and> d \<noteq> [] \<and>
           (outcomesOf pre = [(TLBLevel, True)] \<or>
            outcomesOf pre = [(TLBLevel, False), (RAM, True)] \<or>
            outcomesOf pre = [(TLBLevel, False), (RAM, False), (DISK, False)]) \<and>
           k \<le> length (caches h) \<and>
           (k < length (caches h) \<and>
              outcomesOf d = map (\<lambda>j. (CacheLevel j, False)) [0..<k] @ [(CacheLevel k, True)]
            \<or> k = length (caches h) \<and>
              outcomesOf d = map (\<lambda>j. (CacheLevel j, False)) [0..<k] @ [(RAM, True)]
            \<or> k = length (caches h) \<and>
              outcomesOf d = map (\<lambda>j. (CacheLevel j, False)) [0..<k] @
                               [(RAM, False), (DISK, False), (DISK, True)]) \<and>
           prefix (levelsOf d) (dataLevels (length (caches h))) \<and>
           (length (caches h) \<le> 3 \<longrightarrow> levelOrdered d) \<and>
           (length (caches h) \<le> 3 \<longrightarrow> outcomesOf pre = [(TLBLevel, True)] \<longrightarrow> levelOrdered tr)"
proof -
  let ?n = "length (caches h)"
  from simulateAccess_shape [OF assms] obtain pre d where
    pre: "pre \<in> set (translationParts ?n)" and d: "d \<in> set (dataParts ?n)" and tr: "tr = pre @ d"
    by blast
  have shape: "outcomesOf pre = [(TLBLevel, True)] \<or>
            outcomesOf pre = [(TLBLevel, False), (RAM, True)] \<or>
            outcomesOf pre = [(TLBLevel, False), (RAM, False), (DISK, False)]"
    using pre by (auto simp: translationParts_def outcomesOf_def)
  from d consider
      (hit) k where "k < ?n" "d = missedCaches 0 k @ [(CacheLevel k, True, k + 1)]"
    | (ram) "d = missedCaches 0 ?n @ [(RAM, True, ?n)]"
    | (disk) "d = missedCaches 0 ?n @ [(RAM, False, ?n), (DISK, False, ?n + 1), (DISK, True, ?n + 1)]"
    by (auto simp: dataParts_def)
  then obtain k where k: "k \<le> ?n" and flags:
    "k < ?n \<and>
       outcomesOf d = map (\<lambda>j. (CacheLevel j, False)) [0..<k] @ [(CacheLevel k, True)]
     \<or> k = ?n \<and>
       outcomesOf d = map (\<lambda>j. (CacheLevel j, False)) [0..<k] @ [(RAM, True)]
     \<or> k = ?n \<and>
       outcomesOf d = map (\<lambda>j. (CacheLevel j, False)) [0..<k] @
                        [(RAM, False), (DISK, False), (DISK, True)]"
  proof cases
    case hit
    then show ?thesis
      using that [of k]
      by (simp add: outcomesOf_append outcomesOf_missedCaches outcomesOf_Cons outcomesOf_Nil)
  next
    case ram
    then show ?thesis
      using that [of ?n]
      by (simp add: outcomesOf_append outcomesOf_missedCaches outcomesOf_Cons outcomesOf_Nil)
  next
    case disk
    then show ?thesis
      using that [of ?n]
      by (simp add: outcomesOf_append outcomesOf_missedCaches outcomesOf_Cons outcomesOf_Nil)
  qed
  have ord: "?n \<le> 3 \<longrightarrow> levelOrdered d"
    using dataParts_ordered [OF _ d] by blast
  have whole: "?n \<le> 3 \<longrightarrow> outcomesOf pre = [(TLBLevel, True)] \<longrightarrow> levelOrdered tr"
  proof (intro impI)
    assume n: "?n \<le> 3" and hit: "outcomesOf pre = [(TLBLevel, True)]"
    from hit pre have "levelsOf pre = [TLBLevel]"
      by (auto simp: translationParts_def outcomesOf_def levelsOf_def)
    then show "levelOrdered tr"
      using ord n by (simp add: tr levelOrdered_def levelsOf_append)
  qed
  have ne: "d \<noteq> []" and pf: "prefix (levelsOf d) (dataLevels ?n)"
    using dataParts_levels [OF d] by simp_all
  show ?thesis
    apply (rule exI [of _ pre], rule exI [of _ d], rule exI [of _ k])
    apply (rule conjI [OF tr])
    apply (rule conjI [OF ne])
    apply (rule conjI [OF shape])
    apply (rule conjI [OF k])
    apply (rule conjI [OF flags])
    apply (rule conjI [OF pf])
    apply (rule conjI [OF ord])
    apply (rule whole)
    done
qed

theorem C2_trace_order_witness:
  "map_sum id snd (simulateAccess warmHierarchy 0 (allAtTime 0)) =
     Inr [(TLBLevel, True, 0), (CacheLevel 0, True, 1)] \<and>
   length (caches warmHierarchy) \<le> 3 \<and>
   (\<exists>pre d. [(TLBLevel, True, 0), (CacheLevel 0, True, 1)] = pre @ d \<and> d \<noteq> [] \<and>
      outcomesOf pre = [(TLBLevel, True)] \<and> outcomesOf d = [(CacheLevel 0, True)] \<and>
      prefix (levelsOf d) (dataLevels (length (caches warmHierarchy))) \<and> levelOrdered d) \<and>
   levelOrdered [(TLBLevel, True, 0), (CacheLevel 0, True, 1)]"
proof -
  let ?tr = "[(TLBLevel, True, 0), (CacheLevel 0, True, 1)]"
  have ev: "map_sum id snd (simulateAccess warmHierarchy 0 (allAtTime 0)) = Inr ?tr"
    by code_simp
  then obtain h2 where run: "simulateAccess warmHierarchy 0 (allAtTime 0) = Inr (h2, ?tr)"
    by (cases "simulateAccess warmHierarchy 0 (allAtTime 0)") auto
  have n: "length (caches warmHierarchy) \<le> 3"
    by code_simp
  from C2_trace_order [OF run] obtain pre d k where
    split: "?tr = pre @ d" and ne: "d \<noteq> []" and
    shape: "outcomesOf pre = [(TLBLevel, True)] \<or>
            outcomesOf pre = [(TLBLevel, False), (RAM, True)] \<or>
            outcomesOf pre = [(TLBLevel, False), (RAM, False), (DISK, False)]" and
    pf: "prefix (levelsOf d) (dataLevels (length (caches warmHierarchy)))" and
    od: "length (caches warmHierarchy) \<le> 3 \<longrightarrow> levelOrdered d" and
    ot: "length (caches warmHierarchy) \<le> 3 \<longrightarrow> outcomesOf pre = [(TLBLevel, True)] \<longrightarrow>
           levelOrdered ?tr"
    by blast
  have hit: "outcomesOf pre = [(TLBLevel, True)]"
    using shape split by (cases pre) (auto simp: outcomesOf_def Cons_eq_append_conv)
  have d: "outcomesOf d = [(CacheLevel 0, True)]"
    using hit split by (cases pre) (auto simp: outcomesOf_def Cons_eq_append_conv)
  show ?thesis
    using ev n split ne hit d pf od ot by blast
qed

text \<open>
  C2 (as stated) fails: the first access of the hierarchy misses in the TLB and probes the
  RAM and the disk before the caches.
\<close>

theorem C2_level_order_counterexample:
  "map_sum id (levelsOf \<circ> snd) (simulateAccess coldHierarchy 0 (allAtTime 0)) =
     Inr [TLBLevel, RAM, DISK, CacheLevel 0, CacheLevel 1, RAM] \<and>
   \<not> levelOrdered (snd (projr (simulateAccess coldHierarchy 0 (allAtTime 0))))"
  by code_simp

section \<open>Every access of a sound hierarchy completes\<close>

lemma firstFree_total:
  assumes "\<forall>r \<in> set rs. 0 \<le> r \<and> r < int (length bs)"
  shows "firstFree bs rs = Inr None \<or> (\<exists>r \<in> set rs. firstFree bs rs = Inr (Some r))"
  using assms by (induction rs) (auto simp: blockAt_def)

lemma replace_succeeds:
  assumes s: "soundLevel c" and i: "0 \<le> index" "index < numBlocks c" and r: "0 \<le> rnd e"
  shows "\<exists>c'. replace c index tg e = Inr c' \<and> soundLevel c'"
proof -
  have nb: "0 < numBlocks c" and len: "length (blocks c) = nat (numBlocks c)"
    and q: "\<forall>i \<in> set (fifoQueue c). 0 \<le> i \<and> i < numBlocks c" and wf: "wellFormed c"
    using s by (simp_all add: soundLevel_def wellFormed_def)
  have sb: "\<And>j. 0 \<le> j \<Longrightarrow> j < numBlocks c \<Longrightarrow>
              setBlock (blocks c) j tg = Inr ((blocks c)[nat j := \<lparr>tag = tg, valid = True\<rparr>])"
    using len by (simp add: setBlock_def)
  show ?thesis
  proof (cases "policy c")
    case FIFO
    show ?thesis
    proof (cases "int (length (fifoQueue c)) = numBlocks c")
      case True
      with nb obtain oldIndex rest where qq: "fifoQueue c = oldIndex # rest"
        by (cases "fifoQueue c") auto
      with q have o: "0 \<le> oldIndex" "oldIndex < numBlocks c" by auto
      have "replace c index tg e =
              Inr (c\<lparr>blocks := (blocks c)[nat oldIndex := \<lparr>tag = tg, valid = True\<rparr>],
                     fifoQueue := rest @ [index]\<rparr>)"
        using True qq sb [OF o] by (simp add: replace_def FIFO)
      moreover have "soundLevel (c\<lparr>blocks := (blocks c)[nat oldIndex := \<lparr>tag = tg, valid = True\<rparr>],
                     fifoQueue := rest @ [index]\<rparr>)"
        using s i qq by (auto simp: soundLevel_def wellFormed_def)
      ultimately show ?thesis by blast
    next
      case False
      have "replace c index tg e =
              Inr (c\<lparr>blocks := (blocks c)[nat index := \<lparr>tag = tg, valid = True\<rparr>],
                     fifoQueue := fifoQueue c @ [index]\<rparr>)"
        using False sb [OF i] by (simp add: replace_def FIFO)
      moreover have "soundLevel (c\<lparr>blocks := (blocks c)[nat index := \<lparr>tag = tg, valid = True\<rparr>],
                     fifoQueue := fifoQueue c @ [index]\<rparr>)"
        using s i by (auto simp: soundLevel_def wellFormed_def)
      ultimately show ?thesis by blast
    qed
  next
    case LRU
    have "\<exists>c'. replace c index tg e = Inr c'"
      using sb [OF i] by (simp add: replace_def LRU Let_def split: option.split)
    then obtain c' where c': "replace c index tg e = Inr c'" ..
    have "fifoQueue c' = fifoQueue c"
      using c' by (auto simp: replace_def LRU Let_def setBlock_def split: option.splits if_splits)
    then have "soundLevel c'"
      using s replace_fixed [OF c'] wellFormed_replace [OF wf c'] by (simp add: soundLevel_def)
    then show ?thesis using c' by blast
  next
    case RANDOM
    let ?ri = "shuffle (swaps e) (randomIndices c)"
    let ?n = "nat (numBlocks c)"
    have ms: "mset ?ri = mset (map int [0..<?n])"
      using wf RANDOM by (simp add: wellFormed_def mset_shuffle)
    then have set_ri: "set ?ri = int ` {0..<?n}"
      by (metis mset_eq_setD set_map set_upt)
    have rng: "\<forall>r \<in> set (take ?n ?ri). 0 \<le> r \<and> r < int (length (blocks c))"
      using set_ri len by (auto dest!: in_set_takeD)
    have m: "0 \<le> cmod (rnd e) (numBlocks c)" "cmod (rnd e) (numBlocks c) < numBlocks c"
      using r nb by (simp_all add: cmod_nonneg)
    from firstFree_total [OF rng] obtain c' where c': "replace c index tg e = Inr c'"
    proof
      assume "firstFree (blocks c) (take ?n ?ri) = Inr None"
      then show ?thesis using that nb sb [OF m] by (simp add: replace_def RANDOM Let_def)
    next
      assume "\<exists>r \<in> set (take ?n ?ri). firstFree (blocks c) (take ?n ?ri) = Inr (Some r)"
      then obtain r where rr: "r \<in> set (take ?n ?ri)"
        "firstFree (blocks c) (take ?n ?ri) = Inr (Some r)" by blast
      have "0 \<le> r" "r < numBlocks c" using rng rr(1) len nb by auto
      from sb [OF this] rr(2) show ?thesis using that
        by (simp add: replace_def RANDOM Let_def)
    qed
    have "fifoQueue c' = fifoQueue c"
      using c' by (auto simp: replace_def RANDOM Let_def setBlock_def
                        split: option.splits if_splits sum.splits)
    then have "soundLevel c'"
      using s replace_fixed [OF c'] wellFormed_replace [OF wf c'] by (simp add: soundLevel_def)
    then show ?thesis using c' by blast
  qed
qed

lemma access_succeeds:
  assumes s: "soundLevel c" and bs: "0 < blockSize c" and a: "0 \<le> a" and r: "0 \<le> rnd e"
  shows "\<exists>c' t. access c a e = Inr (c', t) \<and> soundLevel c' \<and> 0 < blockSize c'"
proof -
  have nb: "0 < numBlocks c" and len: "length (blocks c) = nat (numBlocks c)"
    using s by (simp_all add: soundLevel_def wellFormed_def)
  let ?i = "cmod (cdiv a (blockSize c)) (numBlocks c)"
  have d: "0 \<le> cdiv a (blockSize c)"
    using a bs by (simp add: cdiv_nonneg pos_imp_zdiv_nonneg_iff)
  have i: "0 \<le> ?i" "?i < numBlocks c"
    using d nb by (simp_all add: cmod_nonneg)
  have gi: "getIndex c a = Inr ?i"
    using bs nb by (simp add: getIndex_def)
  have ba: "blockAt (blocks c) ?i = Inr (blocks c ! nat ?i)"
    using i len by (simp add: blockAt_def)
  from replace_succeeds [OF s i r] obtain c1 where
    c1: "replace c ?i (cdiv a (blockSize c)) e = Inr c1" "soundLevel c1"
    by blast
  have b1: "blockSize c1 = blockSize c" by (rule replace_blockSize [OF c1(1)])
  show ?thesis
  proof (cases "valid (blocks c ! nat ?i) \<and> tag (blocks c ! nat ?i) = cdiv a (blockSize c)")
    case True
    then have "access c a e =
                 Inr (if policy c = LRU
                      then c\<lparr>lruMap := AList.update (cdiv a (blockSize c)) (time1 e) (lruMap c)\<rparr>
                      else c, accessTime c)"
      using gi ba by (simp add: access_def Let_def)
    moreover have "soundLevel (c\<lparr>lruMap := AList.update (cdiv a (blockSize c)) (time1 e) (lruMap c)\<rparr>)"
      using s by (simp add: soundLevel_def wellFormed_def)
    ultimately show ?thesis using s bs by auto
  next
    case False
    then have "access c a e = Inr (c1, - 1)"
      using gi ba c1(1) by (auto simp: access_def Let_def)
    then show ?thesis using c1(2) b1 bs by simp
  qed
qed

lemma tlb_access_succeeds:
  assumes s: "soundLevel t" and a: "0 \<le> page" and r: "0 \<le> rnd e"
  shows "\<exists>t' r. tlb_access t page e = Inr (t', r) \<and> soundLevel t' \<and> size_c t' = size_c t"
proof -
  have nb: "0 < numBlocks t" and len: "length (blocks t) = nat (numBlocks t)"
    using s by (simp_all add: soundLevel_def wellFormed_def)
  let ?i = "cmod page (numBlocks t)"
  have i: "0 \<le> ?i" "?i < numBlocks t"
    using a nb by (simp_all add: cmod_nonneg)
  have gi: "tlb_getIndex t page = Inr ?i"
    using nb by (simp add: tlb_getIndex_def)
  have ba: "blockAt (blocks t) ?i = Inr (blocks t ! nat ?i)"
    using i len by (simp add: blockAt_def)
  from replace_succeeds [OF s i r] obtain t1 where
    t1: "replace t ?i page e = Inr t1" "soundLevel t1"
    by blast
  have sz: "size_c t1 = size_c t"
    using t1(1) by (cases "policy t")
      (auto simp: replace_def Let_def split: if_splits list.splits sum.splits option.splits)
  show ?thesis
  proof (cases "valid (blocks t ! nat ?i) \<and> tag (blocks t ! nat ?i) = page")
    case True
    then have "tlb_access t page e =
                 Inr (if policy t = LRU
                      then t\<lparr>lruMap := AList.update page (time1 e) (lruMap t)\<rparr>
                      else t, accessTime t)"
      using gi ba by (simp add: tlb_access_def)
    moreover have "soundLevel (t\<lparr>lruMap := AList.update page (time1 e) (lruMap t)\<rparr>)"
      using s by (simp add: soundLevel_def wellFormed_def)
    ultimately show ?thesis using s by auto
  next
    case False
    then have "tlb_access t page e = Inr (t1, - 1)"
      using gi ba t1(1) by (auto simp: tlb_access_def)
    then show ?thesis using t1(2) sz by simp
  qed
qed

lemma accessCaches_succeeds:
  assumes "\<forall>c \<in> set cs. soundLevel c \<and> 0 < blockSize c" and "0 \<le> a"
      and "\<forall>i. 0 \<le> rnd (ce i)"
  shows "\<exists>cs' st' found. accessCaches cs i a ce st = Inr (cs', st', found) \<and>
           (\<forall>c \<in> set cs'. soundLevel c \<and> 0 < blockSize c)"
  using assms(1)
proof (induction cs arbitrary: i st)
  case Nil
  then show ?case by auto
next
  case (Cons c cs)
  from Cons.prems have sc: "soundLevel c" "0 < blockSize c" by simp_all
  from access_succeeds [OF sc assms(2)] assms(3) obtain c1 t where
    c1: "access c a (ce i) = Inr (c1, t)" "soundLevel c1" "0 < blockSize c1"
    by blast
  show ?case
  proof (cases "t \<noteq> - 1")
    case True
    then show ?thesis using c1 Cons.prems by auto
  next
    case False
    from Cons.prems have "\<forall>c \<in> set cs. soundLevel c \<and> 0 < blockSize c" by simp
    from Cons.IH [OF this, of "Suc i" "logOutcome (CacheLevel i) False (i + 1) st"]
    obtain cs' st' found where
      "accessCaches cs (Suc i) a ce (logOutcome (CacheLevel i) False (i + 1) st) =
         Inr (cs', st', found)" "\<forall>c \<in> set cs'. soundLevel c \<and> 0 < blockSize c"
      by blast
    then show ?thesis using c1 False by auto
  qed
qed

lemma cachesRamDisk_succeeds:
  assumes h: "soundHierarchy h" and a: "0 \<le> a"
      and ce: "\<forall>i. 0 \<le> rnd (cacheEnv w i)" and re: "0 \<le> rnd (ramEnv w)"
  shows "\<exists>h' tr. cachesRamDisk h a w st = Inr (h', tr) \<and> soundHierarchy h'"
proof -
  have cs: "\<forall>c \<in> set (caches h). soundLevel c \<and> 0 < blockSize c"
    using h by (simp add: soundHierarchy_def)
  from accessCaches_succeeds [OF cs a ce, of 0 st] obtain cs' st1 found where
    ac: "accessCaches (caches h) 0 a (cacheEnv w) st = Inr (cs', st1, found)" and
    cs': "\<forall>c \<in> set cs'. soundLevel c \<and> 0 < blockSize c"
    by blast
  have "soundLevel (ram h)" "0 < blockSize (ram h)"
    using h by (simp_all add: soundHierarchy_def)
  from access_succeeds [OF this a re] obtain r t where
    ra: "access (ram h) a (ramEnv w) = Inr (r, t)" "soundLevel r" "0 < blockSize r"
    by blast
  show ?thesis
    using ac cs' ra h by (auto simp: cachesRamDisk_def Let_def soundHierarchy_def)
qed

lemma simulateAccess_succeeds:
  assumes h: "soundHierarchy h" and a: "0 \<le> a"
      and te: "0 \<le> rnd (tlbEnv w)" and xe: "0 \<le> rnd (translationEnv w)"
      and ce: "\<forall>i. 0 \<le> rnd (cacheEnv w i)" and re: "0 \<le> rnd (ramEnv w)"
  shows "\<exists>h' tr. simulateAccess h a w = Inr (h', tr) \<and> soundHierarchy h'"
proof -
  have st: "soundLevel (tlb h)" and sz: "0 < size_c (tlb h)"
    using h by (simp_all add: soundHierarchy_def)
  have pg: "0 \<le> cdiv a (size_c (tlb h))"
    using a sz by (simp add: cdiv_nonneg pos_imp_zdiv_nonneg_iff)
  from tlb_access_succeeds [OF st pg te] obtain t r where
    ta: "tlb_access (tlb h) (cdiv a (size_c (tlb h))) (tlbEnv w) = Inr (t, r)"
    "soundLevel t" "size_c t = size_c (tlb h)"
    by blast
  have "soundLevel (ram h)" "0 < blockSize (ram h)"
    using h by (simp_all add: soundHierarchy_def)
  from access_succeeds [OF this a xe] obtain m tm where
    ra: "access (ram h) a (translationEnv w) = Inr (m, tm)" "soundLevel m" "0 < blockSize m"
    by blast
  have h1: "soundHierarchy (h\<lparr>tlb := t\<rparr>)"
    using h ta sz by (simp add: soundHierarchy_def)
  have h2: "soundHierarchy (h\<lparr>tlb := t, ram := m\<rparr>)"
    using h ta ra sz by (simp add: soundHierarchy_def)
  show ?thesis
    using ta(1) ra(1) sz
      cachesRamDisk_succeeds [OF h1 a ce re] cachesRamDisk_succeeds [OF h2 a ce re]
    by (simp add: simulateAccess_def Let_def)
qed

lemma soundLevel_Cache:
  assumes "Cache s bs atm rp = Inr c" and "0 < bs" and "bs \<le> s"
  shows "soundLevel c \<and> 0 < blockSize c"
proof -
  have q: "cdiv s bs = s div bs" using assms by (simp add: cdiv_nonneg)
  have "bs div bs \<le> s div bs" using assms by (intro zdiv_mono1) simp_all
  then have "1 \<le> s div bs" using assms by simp
  then show ?thesis
    using assms(1,2) wellFormed_Cache [OF assms(1)]
    by (auto simp: Cache_def soundLevel_def q split: if_splits)
qed

lemma soundLevel_TLB:
  assumes "TLB s atm rp = Inr t" and "0 < s"
  shows "soundLevel t \<and> 0 < size_c t"
  using assms wellFormed_TLB [OF assms(1)]
  by (auto simp: TLB_def soundLevel_def split: if_splits)

lemma buildCaches_sound:
  assumes "buildCaches cacheSizes blockSizes accessTimes policies is = Inr cs"
      and "\<forall>i \<in> set is. 0 < blockSizes ! i \<and> blockSizes ! i \<le> cacheSizes ! i"
  shows "\<forall>c \<in> set cs. soundLevel c \<and> 0 < blockSize c"
  using assms
proof (induction "is" arbitrary: cs)
  case Nil
  then show ?case by simp
next
  case (Cons i rest)
  from Cons.prems(1) obtain c cs1 where
    c: "Cache (cacheSizes ! i) (blockSizes ! i) (accessTimes ! i) (policies ! i) = Inr c" and
    r: "buildCaches cacheSizes blockSizes accessTimes policies rest = Inr cs1" and
    cs: "cs = c # cs1"
    by (auto split: if_splits sum.splits)
  from Cons.prems(2) have i: "0 < blockSizes ! i" "blockSizes ! i \<le> cacheSizes ! i"
    and rest: "\<forall>i \<in> set rest. 0 < blockSizes ! i \<and> blockSizes ! i \<le> cacheSizes ! i"
    by simp_all
  show ?case
    using soundLevel_Cache [OF c i] Cons.IH [OF r rest] cs by simp
qed

lemma soundHierarchy_MemoryHierarchy:
  assumes "MemoryHierarchy cacheSizes blockSizes accessTimes policies
             ramSize ramBlockSize ramAt ramPolicy diskSize diskAt tlbSize tlbAt tlbPolicy = Inr h"
      and "\<forall>i < length cacheSizes. 0 < blockSizes ! i \<and> blockSizes ! i \<le> cacheSizes ! i"
      and "0 < ramBlockSize" and "ramBlockSize \<le> ramSize" and "0 < tlbSize"
  shows "soundHierarchy h"
proof -
  from assms(1) obtain r cs t where
    r: "Cache ramSize ramBlockSize ramAt ramPolicy = Inr r" and
    cs: "buildCaches cacheSizes blockSizes accessTimes policies [0..<length cacheSizes] = Inr cs" and
    t: "TLB tlbSize tlbAt tlbPolicy = Inr t" and
    h: "h = \<lparr>caches = cs, tlb = t, ram = r, diskAccessTime = diskAt,
             analyzer = PerformanceAnalyzer (length cacheSizes + 1)\<rparr>"
    by (auto simp: MemoryHierarchy_def split: sum.splits)
  have "\<forall>i \<in> set [0..<length cacheSizes]. 0 < blockSizes ! i \<and> blockSizes ! i \<le> cacheSizes ! i"
    using assms(2) by simp
  from buildCaches_sound [OF cs this] soundLevel_Cache [OF r assms(3,4)]
    soundLevel_TLB [OF t assms(5)]
  show ?thesis by (simp add: soundHierarchy_def h)
qed

section \<open>The counters\<close>

lemma fold_increment_length:
  "length (fold (\<lambda>i xs. xs[i := xs ! i + 1]) is (v :: int list)) = length v"
  by (induction "is" arbitrary: v) auto

lemma fold_increment_nth:
  "j < length v \<Longrightarrow>
     fold (\<lambda>i xs. xs[i := xs ! i + 1]) [a..<b] (v :: int list) ! j =
       v ! j + (if a \<le> j \<and> j < b then 1 else 0)"
proof (induction b arbitrary: j)
  case 0
  then show ?case by simp
next
  case (Suc b)
  let ?w = "fold (\<lambda>i xs. xs[i := xs ! i + 1]) [a..<b] v"
  have len: "length ?w = length v" by (rule fold_increment_length)
  show ?case
  proof (cases "a \<le> b")
    case True
    then have step: "fold (\<lambda>i xs. xs[i := xs ! i + 1]) [a..<Suc b] v = ?w[b := ?w ! b + 1]"
      by simp
    show ?thesis
    proof (cases "j = b")
      case True
      have wb: "?w ! b = v ! b"
        using Suc.IH [of b] Suc.prems True by simp
      have "?w[b := ?w ! b + 1] ! b = ?w ! b + 1"
        using Suc.prems len True by simp
      then show ?thesis using step True wb \<open>a \<le> b\<close> by simp
    next
      case False
      then have "?w[b := ?w ! b + 1] ! j = ?w ! j" by simp
      then show ?thesis using step Suc.IH [OF Suc.prems] False by auto
    qed
  next
    case False
    then show ?thesis using Suc.prems by auto
  qed
qed

lemma incrementFrom_length: "length (incrementFrom a v) = length v"
  by (simp add: incrementFrom_def fold_increment_length)

lemma incrementFrom_nth:
  "j < length v \<Longrightarrow> incrementFrom a v ! j = v ! j + (if a \<le> j then 1 else 0)"
  by (simp add: incrementFrom_def fold_increment_nth)

lemma logAccess_lengths:
  "length (cacheHits (logAccess hit k an)) = length (cacheHits an) \<and>
   length (cacheMisses (logAccess hit k an)) = length (cacheMisses an)"
  by (simp add: logAccess_def incrementFrom_length)

lemma logAccess_totals:
  "totalAccesses (logAccess hit k an) = totalAccesses an + 1 \<and>
   hits (logAccess hit k an) = hits an + (if hit then 1 else 0) \<and>
   misses (logAccess hit k an) = misses an + (if hit then 0 else 1)"
  by (simp add: logAccess_def)

lemma logAccess_cacheHits:
  assumes "j < length (cacheHits an)"
  shows "cacheHits (logAccess hit k an) ! j =
           cacheHits an ! j + (if hit \<and> k \<le> j then 1 else 0)"
proof (cases "j = k")
  case True
  then show ?thesis
    using assms by (auto simp: logAccess_def incrementFrom_nth nth_list_update)
next
  case False
  then show ?thesis
    using assms by (auto simp: logAccess_def incrementFrom_nth nth_list_update)
qed

lemma logAccess_cacheMisses:
  "j < length (cacheMisses an) \<Longrightarrow>
     cacheMisses (logAccess hit k an) ! j = cacheMisses an ! j + (if \<not> hit \<and> k = j then 1 else 0)"
  by (auto simp: logAccess_def nth_list_update)

lemma logAll_totals:
  "totalAccesses (logAll tr an) = totalAccesses an + int (length tr) \<and>
   hits (logAll tr an) = hits an + int (length (filter (\<lambda>(lv, hit, k). hit) tr)) \<and>
   misses (logAll tr an) = misses an + int (length (filter (\<lambda>(lv, hit, k). \<not> hit) tr))"
proof (induction tr arbitrary: an)
  case Nil
  then show ?case by (simp add: logAll_Nil)
next
  case (Cons x tr)
  obtain lv hit k where x: "x = (lv, hit, k)" by (cases x)
  show ?case by (simp add: x logAll_Cons Cons.IH logAccess_totals)
qed

lemma logAll_cacheHits:
  "j < length (cacheHits an) \<Longrightarrow>
     cacheHits (logAll tr an) ! j =
       cacheHits an ! j + int (length (filter (\<lambda>(lv, hit, k). hit \<and> k \<le> j) tr))"
proof (induction tr arbitrary: an)
  case Nil
  then show ?case by (simp add: logAll_Nil)
next
  case (Cons x tr)
  obtain lv hit k where x: "x = (lv, hit, k)" by (cases x)
  have "j < length (cacheHits (logAccess hit k an))"
    using Cons.prems by (simp add: logAccess_lengths)
  from Cons.IH [OF this] show ?case
    using Cons.prems by (simp add: x logAll_Cons logAccess_cacheHits)
qed

lemma logAll_cacheMisses:
  "j < length (cacheMisses an) \<Longrightarrow>
     cacheMisses (logAll tr an) ! j =
       cacheMisses an ! j + int (length (filter (\<lambda>(lv, hit, k). \<not> hit \<and> k = j) tr))"
proof (induction tr arbitrary: an)
  case Nil
  then show ?case by (simp add: logAll_Nil)
next
  case (Cons x tr)
  obtain lv hit k where x: "x = (lv, hit, k)" by (cases x)
  have "j < length (cacheMisses (logAccess hit k an))"
    using Cons.prems by (simp add: logAccess_lengths)
  from Cons.IH [OF this] show ?case
    using Cons.prems by (simp add: x logAll_Cons logAccess_cacheMisses)
qed

lemma length_missedCaches: "length (missedCaches i k) = k"
  by (simp add: missedCaches_def)

lemma missedCaches_index:
  "(lv, hit, k) \<in> set (missedCaches 0 m) \<Longrightarrow> \<exists>i < m. lv = CacheLevel i \<and> k = i + 1 \<and> \<not> hit"
  by (auto simp: missedCaches_def)

lemma trace_shape_facts:
  assumes pre: "pre \<in> set (translationParts n)" and d: "d \<in> set (dataParts n)"
  shows "length (pre @ d) \<le> n + 6"
    and "TLBLevel \<in> set (levelsOf (pre @ d))"
    and "distinct (filter (\<lambda>lv. lv \<noteq> RAM \<and> lv \<noteq> DISK) (levelsOf (pre @ d)))"
    and "\<forall>(lv, hit, k) \<in> set (pre @ d).
           (lv = TLBLevel \<longrightarrow> k = 0) \<and> (\<forall>i. lv = CacheLevel i \<longrightarrow> k = i + 1 \<and> i < n)"
proof -
  from d consider
      (hit) m where "m < n" "d = missedCaches 0 m @ [(CacheLevel m, True, m + 1)]"
    | (ram) "d = missedCaches 0 n @ [(RAM, True, n)]"
    | (disk) "d = missedCaches 0 n @ [(RAM, False, n), (DISK, False, n + 1), (DISK, True, n + 1)]"
    by (auto simp: dataParts_def)
  note dcases = this
  show "length (pre @ d) \<le> n + 6"
    using pre by (cases rule: dcases) (auto simp: translationParts_def length_missedCaches)
  show "TLBLevel \<in> set (levelsOf (pre @ d))"
    using pre by (auto simp: translationParts_def levelsOf_def)
  have lp: "filter (\<lambda>lv. lv \<noteq> RAM \<and> lv \<noteq> DISK) (levelsOf pre) = [TLBLevel]"
    using pre by (auto simp: translationParts_def levelsOf_def)
  have fm: "\<And>m. filter (\<lambda>lv. lv \<noteq> RAM \<and> lv \<noteq> DISK) (map CacheLevel [0..<m]) = map CacheLevel [0..<m]"
    by (simp add: filter_map comp_def)
  have dm: "\<And>m. distinct (map CacheLevel [0..<m])"
    by (simp add: distinct_map inj_on_def)
  show "distinct (filter (\<lambda>lv. lv \<noteq> RAM \<and> lv \<noteq> DISK) (levelsOf (pre @ d)))"
  proof (cases rule: dcases)
    case hit
    have "levelsOf d = map CacheLevel [0..<Suc m]"
      by (simp add: hit levelsOf_append levelsOf_missedCaches) (simp add: levelsOf_def)
    then show ?thesis using lp fm [of "Suc m"] dm [of "Suc m"]
      by (auto simp: levelsOf_append)
  next
    case ram
    have "levelsOf d = map CacheLevel [0..<n] @ [RAM]"
      by (simp add: ram levelsOf_append levelsOf_missedCaches) (simp add: levelsOf_def)
    then show ?thesis using lp fm [of n] dm [of n]
      by (auto simp: levelsOf_append)
  next
    case disk
    have "levelsOf d = map CacheLevel [0..<n] @ [RAM, DISK, DISK]"
      by (simp add: disk levelsOf_append levelsOf_missedCaches) (simp add: levelsOf_def)
    then show ?thesis using lp fm [of n] dm [of n]
      by (auto simp: levelsOf_append)
  qed
  show "\<forall>(lv, hit, k) \<in> set (pre @ d).
           (lv = TLBLevel \<longrightarrow> k = 0) \<and> (\<forall>i. lv = CacheLevel i \<longrightarrow> k = i + 1 \<and> i < n)"
    using pre
    by (cases rule: dcases) (auto simp: translationParts_def dest!: missedCaches_index)
qed

lemma simulateAccess_counters:
  assumes "simulateAccess h a w = Inr (h', tr)"
  shows "length tr \<le> length (caches h) + 6 \<and>
         TLBLevel \<in> set (levelsOf tr) \<and>
         distinct (filter (\<lambda>lv. lv \<noteq> RAM \<and> lv \<noteq> DISK) (levelsOf tr)) \<and>
         (\<forall>(lv, hit, k) \<in> set tr.
            (lv = TLBLevel \<longrightarrow> k = 0) \<and>
            (\<forall>i. lv = CacheLevel i \<longrightarrow> k = i + 1 \<and> i < length (caches h))) \<and>
         totalAccesses (analyzer h') = totalAccesses (analyzer h) + int (length tr) \<and>
         hits (analyzer h') =
           hits (analyzer h) + int (length (filter (\<lambda>(lv, hit, k). hit) tr)) \<and>
         misses (analyzer h') =
           misses (analyzer h) + int (length (filter (\<lambda>(lv, hit, k). \<not> hit) tr)) \<and>
         (\<forall>j < length (cacheMisses (analyzer h)).
            cacheMisses (analyzer h') ! j =
              cacheMisses (analyzer h) ! j +
              int (length (filter (\<lambda>(lv, hit, k). \<not> hit \<and> k = j) tr))) \<and>
         (\<forall>j < length (cacheHits (analyzer h)).
            cacheHits (analyzer h') ! j =
              cacheHits (analyzer h) ! j +
              int (length (filter (\<lambda>(lv, hit, k). hit \<and> k \<le> j) tr)))"
proof -
  from simulateAccess_shape [OF assms] obtain pre d where
    pre: "pre \<in> set (translationParts (length (caches h)))" and
    d: "d \<in> set (dataParts (length (caches h)))" and
    tr: "tr = pre @ d" and an: "analyzer h' = logAll tr (analyzer h)"
    by blast
  show ?thesis
    unfolding an
    using trace_shape_facts [OF pre d, folded tr] logAll_totals [of tr "analyzer h"]
      logAll_cacheMisses [of _ "analyzer h" tr] logAll_cacheHits [of _ "analyzer h" tr]
    by simp
qed

text \<open>
  C9 (as amended). In an access that \<^verbatim>\<open>simulateAccess\<close> completes, every probe contributes
  exactly one outcome, whose flag is the result of the probe. The TLB is probed once and its
  outcome is the first. On a miss of the TLB the RAM is probed for the translation and its
  outcome is the second; when that probe misses, a miss is logged for the disk. Then the
  caches are probed in order: the first \<open>k\<close> miss and contribute a miss each, the next one,
  if there is one, hits and contributes a hit, and the caches after it are not probed,
  contribute nothing and keep their state. When all caches missed the RAM is probed and
  contributes its outcome, followed on a miss by a miss and a hit logged for the disk.
  The outcome of the TLB is logged at the index 0 and the outcome of \<^verbatim>\<open>caches[i]\<close> at the
  index \<open>i + 1\<close>; the trace has at most \<open>n + 6\<close> outcomes for \<open>n\<close> caches. Every outcome is one
  call of \<^verbatim>\<open>logAccess\<close>: \<^verbatim>\<open>totalAccesses\<close> grows by the number of outcomes, \<^verbatim>\<open>hits\<close> and
  \<^verbatim>\<open>misses\<close> by the number of hits and of misses among them, the miss counter of an index by
  the number of misses logged at that index, and the hit counter of an index by the number
  of hits logged at that index or at a lower one: a hit is counted for its own index and for
  every higher one. And the access does complete when the hierarchy is sound, the address
  is not negative and \<^verbatim>\<open>std::rand()\<close> returns no negative number; the hierarchy is sound
  again afterwards. The constructor builds a sound hierarchy from capacities that are at
  least the block sizes, positive block sizes and a positive size of the TLB
  (\<open>soundHierarchy_MemoryHierarchy\<close>).
\<close>

theorem C9_outcomes_and_counters:
  "(simulateAccess h a w = Inr (h', tr) \<longrightarrow>
      (\<exists>tt ram1 pre k d.
           tlb_access (tlb h) (cdiv a (size_c (tlb h))) (tlbEnv w) = Inr (tlb h', tt) \<and>
           (tt \<noteq> - 1 \<and> pre = [(TLBLevel, True)] \<and> ram1 = ram h
            \<or> tt = - 1 \<and>
              (\<exists>rt. access (ram h) a (translationEnv w) = Inr (ram1, rt) \<and>
                 (rt \<noteq> - 1 \<and> pre = [(TLBLevel, False), (RAM, True)]
                  \<or> rt = - 1 \<and> pre = [(TLBLevel, False), (RAM, False), (DISK, False)]))) \<and>
           k \<le> length (caches h) \<and> length (caches h') = length (caches h) \<and>
           (\<forall>j < k. access (caches h ! j) a (cacheEnv w j) = Inr (caches h' ! j, - 1)) \<and>
           (\<forall>j. k < j \<and> j < length (caches h) \<longrightarrow> caches h' ! j = caches h ! j) \<and>
           (k < length (caches h) \<and>
              (\<exists>ct. ct \<noteq> - 1 \<and> access (caches h ! k) a (cacheEnv w k) = Inr (caches h' ! k, ct)) \<and>
              d = map (\<lambda>j. (CacheLevel j, False)) [0..<k] @ [(CacheLevel k, True)] \<and>
              ram h' = ram1
            \<or> k = length (caches h) \<and>
              (\<exists>rt. access ram1 a (ramEnv w) = Inr (ram h', rt) \<and>
                 (rt \<noteq> - 1 \<and> d = map (\<lambda>j. (CacheLevel j, False)) [0..<k] @ [(RAM, True)]
                  \<or> rt = - 1 \<and>
                    d = map (\<lambda>j. (CacheLevel j, False)) [0..<k] @
                          [(RAM, False), (DISK, False), (DISK, True)]))) \<and>
           outcomesOf tr = pre @ d) \<and>
      length tr \<le> length (caches h) + 6 \<and>
         TLBLevel \<in> set (levelsOf tr) \<and>
         distinct (filter (\<lambda>lv. lv \<noteq> RAM \<and> lv \<noteq> DISK) (levelsOf tr)) \<and>
         (\<forall>(lv, hit, k) \<in> set tr.
            (lv = TLBLevel \<longrightarrow> k = 0) \<and>
            (\<forall>i. lv = CacheLevel i \<longrightarrow> k = i + 1 \<and> i < length (caches h))) \<and>
         totalAccesses (analyzer h') = totalAccesses (analyzer h) + int (length tr) \<and>
         hits (analyzer h') =
           hits (analyzer h) + int (length (filter (\<lambda>(lv, hit, k). hit) tr)) \<and>
         misses (analyzer h') =
           misses (analyzer h) + int (length (filter (\<lambda>(lv, hit, k). \<not> hit) tr)) \<and>
         (\<forall>j < length (cacheMisses (analyzer h)).
            cacheMisses (analyzer h') ! j =
              cacheMisses (analyzer h) ! j +
              int (length (filter (\<lambda>(lv, hit, k). \<not> hit \<and> k = j) tr))) \<and>
         (\<forall>j < length (cacheHits (analyzer h)).
            cacheHits (analyzer h') ! j =
              cacheHits (analyzer h) ! j +
              int (length (filter (\<lambda>(lv, hit, k). hit \<and> k \<le> j) tr)))) \<and>
   (soundHierarchy h \<and> 0 \<le> a \<and> 0 \<le> rnd (tlbEnv w) \<and> 0 \<le> rnd (translationEnv w) \<and>
    (\<forall>i. 0 \<le> rnd (cacheEnv w i)) \<and> 0 \<le> rnd (ramEnv w) \<longrightarrow>
      (\<exists>h1 tr1. simulateAccess h a w = Inr (h1, tr1) \<and> soundHierarchy h1))"
  (is "(?run \<longrightarrow> ?out \<and> ?cnt) \<and> ?total")
proof (rule conjI)
  show "?run \<longrightarrow> ?out \<and> ?cnt"
  proof (rule impI)
    assume run: ?run
    show "?out \<and> ?cnt"
      by (rule conjI [OF simulateAccess_outcomes [OF run] simulateAccess_counters [OF run]])
  qed
  show ?total
    using simulateAccess_succeeds [of h a w] by blast
qed

theorem C9_outcomes_and_counters_witness:
  "soundHierarchy warmHierarchy \<and>
   (\<exists>h2. simulateAccess warmHierarchy 0 (allAtTime 0) =
          Inr (h2, [(TLBLevel, True, 0), (CacheLevel 0, True, 1)]) \<and>
        soundHierarchy h2 \<and>
        (\<exists>tt. tt \<noteq> - 1 \<and>
           tlb_access (tlb warmHierarchy) (cdiv 0 (size_c (tlb warmHierarchy)))
             (tlbEnv (allAtTime 0)) = Inr (tlb h2, tt)) \<and>
        (\<exists>ct. ct \<noteq> - 1 \<and>
           access (caches warmHierarchy ! 0) 0 (cacheEnv (allAtTime 0) 0) =
             Inr (caches h2 ! 0, ct)) \<and>
        caches h2 ! 1 = caches warmHierarchy ! 1 \<and>
        ram h2 = ram warmHierarchy \<and>
        totalAccesses (analyzer h2) = totalAccesses (analyzer warmHierarchy) + 2 \<and>
        hits (analyzer h2) = hits (analyzer warmHierarchy) + 2 \<and>
        misses (analyzer h2) = misses (analyzer warmHierarchy) \<and>
        cacheMisses (analyzer h2) ! 1 = cacheMisses (analyzer warmHierarchy) ! 1 \<and>
        cacheHits (analyzer h2) ! 0 = cacheHits (analyzer warmHierarchy) ! 0 + 1 \<and>
        cacheHits (analyzer h2) ! 2 = cacheHits (analyzer warmHierarchy) ! 2 + 2)"
proof -
  let ?tr = "[(TLBLevel, True, 0), (CacheLevel 0, True, 1)]"
  let ?h = warmHierarchy
  let ?w = "allAtTime 0"
  have ev: "map_sum id snd (simulateAccess ?h 0 ?w) = Inr ?tr"
    by code_simp
  have sound: "soundHierarchy ?h"
    by code_simp
  have n: "length (caches ?h) = 2"
    by code_simp
  have envs: "0 \<le> rnd (tlbEnv ?w)" "0 \<le> rnd (translationEnv ?w)"
    "\<forall>i. 0 \<le> rnd (cacheEnv ?w i)" "0 \<le> rnd (ramEnv ?w)"
    by (simp_all add: allAtTime_def atTime_def)
  from C9_outcomes_and_counters [of ?h 0 ?w, THEN conjunct2] sound envs
  obtain h2 tr2 where
    run: "simulateAccess ?h 0 ?w = Inr (h2, tr2)" and
    s2: "soundHierarchy h2"
    by auto
  have tr2: "tr2 = ?tr" using ev run by simp
  have run': "simulateAccess ?h 0 ?w = Inr (h2, ?tr)" using run tr2 by simp
  have len: "length (cacheHits (analyzer ?h)) = 3"
    "length (cacheMisses (analyzer ?h)) = 3"
    by code_simp+
  note inst = C9_outcomes_and_counters [of ?h 0 ?w h2 ?tr, THEN conjunct1, rule_format, OF run']
  from inst [THEN conjunct2] len
  have counters: "totalAccesses (analyzer h2) = totalAccesses (analyzer ?h) + 2 \<and>
        hits (analyzer h2) = hits (analyzer ?h) + 2 \<and>
        misses (analyzer h2) = misses (analyzer ?h) \<and>
        cacheMisses (analyzer h2) ! 1 = cacheMisses (analyzer ?h) ! 1 \<and>
        cacheHits (analyzer h2) ! 0 = cacheHits (analyzer ?h) ! 0 + 1 \<and>
        cacheHits (analyzer h2) ! 2 = cacheHits (analyzer ?h) ! 2 + 2"
    by simp
  from inst [THEN conjunct1] obtain tt ram1 pre k d where
    ta: "tlb_access (tlb ?h) (cdiv 0 (size_c (tlb ?h))) (tlbEnv ?w) = Inr (tlb h2, tt)" and
    T: "tt \<noteq> - 1 \<and> pre = [(TLBLevel, True)] \<and> ram1 = ram ?h
        \<or> tt = - 1 \<and>
          (\<exists>rt. access (ram ?h) 0 (translationEnv ?w) = Inr (ram1, rt) \<and>
             (rt \<noteq> - 1 \<and> pre = [(TLBLevel, False), (RAM, True)]
              \<or> rt = - 1 \<and> pre = [(TLBLevel, False), (RAM, False), (DISK, False)]))" and
    later: "\<forall>j. k < j \<and> j < length (caches ?h) \<longrightarrow> caches h2 ! j = caches ?h ! j" and
    D: "k < length (caches ?h) \<and>
          (\<exists>ct. ct \<noteq> - 1 \<and> access (caches ?h ! k) 0 (cacheEnv ?w k) = Inr (caches h2 ! k, ct)) \<and>
          d = map (\<lambda>j. (CacheLevel j, False)) [0..<k] @ [(CacheLevel k, True)] \<and>
          ram h2 = ram1
        \<or> k = length (caches ?h) \<and>
          (\<exists>rt. access ram1 0 (ramEnv ?w) = Inr (ram h2, rt) \<and>
             (rt \<noteq> - 1 \<and> d = map (\<lambda>j. (CacheLevel j, False)) [0..<k] @ [(RAM, True)]
              \<or> rt = - 1 \<and>
                d = map (\<lambda>j. (CacheLevel j, False)) [0..<k] @
                      [(RAM, False), (DISK, False), (DISK, True)]))" and
    E: "outcomesOf ?tr = pre @ d"
    by blast
  have E': "pre @ d = [(TLBLevel, True), (CacheLevel 0, True)]"
    using E by (simp add: outcomesOf_def)
  have pre: "tt \<noteq> - 1" "pre = [(TLBLevel, True)]" "ram1 = ram ?h"
    using T E' by auto
  then have d: "d = [(CacheLevel 0, True)]" using E' by simp
  have k: "k = 0 \<and> k < length (caches ?h) \<and> ram h2 = ram1 \<and>
       (\<exists>ct. ct \<noteq> - 1 \<and> access (caches ?h ! k) 0 (cacheEnv ?w k) = Inr (caches h2 ! k, ct))"
    using D unfolding d n
    by (elim disjE conjE exE) (auto simp: append_eq_Cons_conv Cons_eq_append_conv)
  have unprobed: "caches h2 ! 1 = caches ?h ! 1"
    using later k n by simp
  show ?thesis
    using sound run' s2 ta pre k unprobed counters by blast
qed

text \<open>
  C9 (as stated) fails: the access probes the TLB and L1 only, both hit, and the hit counters
  of the three indices grow by 1, 2 and 2; the index 2 belongs to L2, which was not probed.
\<close>

theorem C9_one_update_per_level_counterexample:
  "map_sum id snd (simulateAccess warmHierarchy 0 (allAtTime 0)) =
     Inr [(TLBLevel, True, 0), (CacheLevel 0, True, 1)] \<and>
   cacheHits (analyzer warmHierarchy) = [0, 0, 1] \<and>
   map_sum id (cacheHits \<circ> analyzer \<circ> fst) (simulateAccess warmHierarchy 0 (allAtTime 0)) =
     Inr [1, 2, 3]"
  by code_simp

end
